theory Spec2Isabelle
  imports Main "HOL-Library.Word"
begin

section \<open>Common types (storage\_types.h)\<close>

type_synonym byte = "8 word"

text \<open>\<^verbatim>\<open>enum class StatusCode\<close>; the message string carried by \<^verbatim>\<open>Status\<close> is dropped.\<close>

datatype StatusCode =
  kOk | kInvalidArgument | kNotFound | kOutOfRange | kIOError | kCorruption | kUnavailable | kUnknown

text \<open>\<^verbatim>\<open>kInvalidPageId = static_cast<page_id_t>(-1)\<close> with \<^verbatim>\<open>page_id_t = uint32_t\<close>.\<close>

abbreviation kInvalidPageId :: nat where
  "kInvalidPageId \<equiv> 4294967295"

abbreviation kPageFormatVersion :: nat where
  "kPageFormatVersion \<equiv> 1"

text \<open>
  Conversion to \<^verbatim>\<open>uint16_t\<close>: the source computes in \<^verbatim>\<open>int\<close>, \<^verbatim>\<open>uint32_t\<close> or
  \<^verbatim>\<open>size_t\<close> and then casts; all of these agree with the mathematical result modulo
  \<open>2^16\<close>.
\<close>

definition u16 :: "int \<Rightarrow> nat" where
  "u16 i = nat (i mod 65536)"

section \<open>Slotted page (page.h, slotted\_page.cc)\<close>

text \<open>
  \<^verbatim>\<open>sizeof(PageHeader)\<close> is 32 on the LP64 ABI the code targets (u32, padding, u64,
  3 x u16, padding, 2 x u32); \<^verbatim>\<open>sizeof(Slot)\<close> is 4 (2 x u16).
\<close>

abbreviation sizeof_PageHeader :: nat where
  "sizeof_PageHeader \<equiv> 32"

abbreviation sizeof_Slot :: nat where
  "sizeof_Slot \<equiv> 4"

record PageHeader =
  page_id :: nat
  page_lsn :: nat
  slot_count :: nat
  free_off :: nat
  free_size :: nat
  checksum :: nat
  format_version :: nat

record Slot =
  off :: nat
  len :: nat

text \<open>
  A page buffer. The header is the prefix of the buffer; \<open>dir i\<close> is the directory entry
  \<^verbatim>\<open>SlotAt(page, page_size, i)\<close> (stored at \<^verbatim>\<open>page_size - (i+1) * sizeof(Slot)\<close>);
  \<open>mem a\<close> is the byte at offset \<open>a\<close> of the buffer. Header, directory and payload are
  kept in separate fields, so the model describes the buffer as long as no record is
  written over the header or the directory. \<open>compact_calls\<close> is a ghost counter of the
  executions of \<^verbatim>\<open>Compact()\<close>; it is not part of the page format.
\<close>

record Page = PageHeader +
  dir :: "nat \<Rightarrow> Slot"
  mem :: "nat \<Rightarrow> byte"
  compact_calls :: nat

text \<open>\<^verbatim>\<open>memmove(page + dst, src, n)\<close> with an external source buffer.\<close>

definition mem_write :: "(nat \<Rightarrow> byte) \<Rightarrow> nat \<Rightarrow> byte list \<Rightarrow> (nat \<Rightarrow> byte)" where
  "mem_write m dst bs = (\<lambda>a. if dst \<le> a \<and> a < dst + length bs then bs ! (a - dst) else m a)"

text \<open>\<^verbatim>\<open>memmove(page + dst, page + src, n)\<close> inside the page (overlap allowed).\<close>

definition mem_move :: "(nat \<Rightarrow> byte) \<Rightarrow> nat \<Rightarrow> nat \<Rightarrow> nat \<Rightarrow> (nat \<Rightarrow> byte)" where
  "mem_move m dst src n = (\<lambda>a. if dst \<le> a \<and> a < dst + n then m (src + (a - dst)) else m a)"

text \<open>The bytes seen through a pointer \<^verbatim>\<open>page + o\<close> and a length \<open>n\<close>.\<close>

definition mem_read :: "(nat \<Rightarrow> byte) \<Rightarrow> nat \<Rightarrow> nat \<Rightarrow> byte list" where
  "mem_read m o1 n = map m [o1..<o1 + n]"

definition InitNew :: "nat \<Rightarrow> nat \<Rightarrow> Page" where
  "InitNew pid page_size =
     \<lparr> page_id = pid, page_lsn = 0, slot_count = 0,
       free_off = u16 (int sizeof_PageHeader),
       free_size = u16 (int page_size - int sizeof_PageHeader),
       checksum = 0, format_version = kPageFormatVersion,
       dir = (\<lambda>_. \<lparr> off = 0, len = 0 \<rparr>), mem = (\<lambda>_. 0), compact_calls = 0 \<rparr>"

text \<open>
  \<^verbatim>\<open>Compact\<close>: the live entries \<open>(off, slot, len)\<close> in slot order, sorted by offset, then
  moved one after the other to the running position \<open>cur\<close>. \<^verbatim>\<open>std::sort\<close> leaves the order
  of entries with equal offsets open; \<open>sort_key\<close> is one such order (they coincide when
  the live offsets are distinct).
\<close>

definition lives :: "Page \<Rightarrow> (nat \<times> nat \<times> nat) list" where
  "lives pg = map (\<lambda>i. (off (dir pg i), i, len (dir pg i)))
                 (filter (\<lambda>i. len (dir pg i) \<noteq> 0) [0..<slot_count pg])"

fun compact_step :: "nat \<Rightarrow> nat \<times> nat \<times> nat \<Rightarrow> Page \<times> nat \<Rightarrow> Page \<times> nat" where
  "compact_step page_size (e_off, e_slot, e_len) (pg, cur) =
     (if e_off < sizeof_PageHeader \<or> e_off + e_len > page_size then (pg, cur)
      else (pg\<lparr> mem := mem_move (mem pg) cur e_off e_len,
                dir := (dir pg)(e_slot := (dir pg e_slot)\<lparr> off := cur \<rparr>) \<rparr>,
            u16 (int cur + int e_len)))"

definition Compact :: "nat \<Rightarrow> Page \<Rightarrow> Page" where
  "Compact page_size pg =
     (let n = slot_count pg;
          (pg1, cur) = fold (compact_step page_size) (sort_key fst (lives pg))
                            (pg, u16 (int sizeof_PageHeader))
      in pg1\<lparr> free_off := cur,
              free_size := u16 (int page_size - int cur - int (n * sizeof_Slot)),
              compact_calls := compact_calls pg1 + 1 \<rparr>)"

text \<open>
  \<^verbatim>\<open>Insert(rec, len, out_slot)\<close>: the record is the byte list \<open>rec\<close> and \<^verbatim>\<open>len\<close> its
  length (a \<^verbatim>\<open>uint16_t\<close>). The pointer arguments are taken to be non-null. The result is
  the error status or the slot id written to \<^verbatim>\<open>*out_slot\<close>, and the page afterwards.
\<close>

definition Insert :: "nat \<Rightarrow> Page \<Rightarrow> byte list \<Rightarrow> (StatusCode + nat) \<times> Page" where
  "Insert page_size pg rec =
     (if length rec = 0 then (Inl kInvalidArgument, pg)
      else
        let free_slot = find (\<lambda>i. len (dir pg i) = 0) [0..<slot_count pg];
            reuse_slot = (free_slot \<noteq> None);
            extra_slot_bytes = (if reuse_slot then 0 else sizeof_Slot);
            need = length rec + extra_slot_bytes;
            pg1 = (if free_size pg < need then Compact page_size pg else pg)
        in if free_size pg < need \<and> free_size pg1 < need then (Inl kOutOfRange, pg1)
           else
             let rec_off = free_off pg1;
                 pg2 = pg1\<lparr> mem := mem_write (mem pg1) rec_off rec,
                            free_off := u16 (int (free_off pg1) + int (length rec)),
                            free_size := u16 (int (free_size pg1) - int (length rec)) \<rparr>;
                 slot_id = (case free_slot of Some i \<Rightarrow> i | None \<Rightarrow> slot_count pg2);
                 pg3 = (if reuse_slot then pg2
                        else pg2\<lparr> slot_count := u16 (int (slot_count pg2) + 1),
                                  free_size := u16 (int (free_size pg2) - int sizeof_Slot) \<rparr>)
             in (Inr slot_id, pg3\<lparr> dir := (dir pg3)(slot_id := \<lparr> off = rec_off, len = length rec \<rparr>) \<rparr>))"

definition Get :: "nat \<Rightarrow> Page \<Rightarrow> nat \<Rightarrow> StatusCode + byte list" where
  "Get page_size pg slot =
     (if slot \<ge> slot_count pg then Inl kNotFound
      else let s = dir pg slot in
        if len s = 0 then Inl kNotFound
        else if off s < sizeof_PageHeader \<or> off s + len s > page_size then Inl kCorruption
        else Inr (mem_read (mem pg) (off s) (len s)))"

text \<open>
  \<^verbatim>\<open>Update(slot, rec, len)\<close>: the argument \<open>rec_ptr\<close> is the pointer \<^verbatim>\<open>rec\<close>, \<open>None\<close> for
  the null pointer (which the call rejects first, whatever \<^verbatim>\<open>len\<close> is) and \<open>Some rec\<close> for
  a pointer to the \<^verbatim>\<open>len\<close> bytes \<open>rec\<close>; \<open>Some []\<close> is a non-null pointer with \<^verbatim>\<open>len\<close> 0.
\<close>

definition Update :: "nat \<Rightarrow> Page \<Rightarrow> nat \<Rightarrow> byte list option \<Rightarrow> StatusCode \<times> Page" where
  "Update page_size pg slot rec_ptr =
     (case rec_ptr of
        None \<Rightarrow> (kInvalidArgument, pg)
      | Some rec \<Rightarrow>
         (if slot \<ge> slot_count pg then (kNotFound, pg)
          else let s = dir pg slot in
            if len s = 0 then (kNotFound, pg)
            else if length rec \<le> len s then
              (kOk, pg\<lparr> mem := mem_write (mem pg) (off s) rec,
                        dir := (dir pg)(slot := s\<lparr> len := length rec \<rparr>) \<rparr>)
            else
              let pg1 = (if free_size pg < length rec then Compact page_size pg else pg)
              in if free_size pg < length rec \<and> free_size pg1 < length rec then (kOutOfRange, pg1)
                 else (kOk, pg1\<lparr> mem := mem_write (mem pg1) (free_off pg1) rec,
                                 dir := (dir pg1)(slot := \<lparr> off = free_off pg1, len = length rec \<rparr>),
                                 free_off := u16 (int (free_off pg1) + int (length rec)),
                                 free_size := u16 (int (free_size pg1) - int (length rec)) \<rparr>)))"

definition Erase :: "nat \<Rightarrow> Page \<Rightarrow> nat \<Rightarrow> StatusCode \<times> Page" where
  "Erase page_size pg slot =
     (if slot \<ge> slot_count pg then (kNotFound, pg)
      else if len (dir pg slot) = 0 then (kNotFound, pg)
      else (kOk, pg\<lparr> dir := (dir pg)(slot := (dir pg slot)\<lparr> len := 0 \<rparr>) \<rparr>))"


section \<open>Sequences of page operations\<close>

text \<open>
  The mutating calls a client can issue on a page (\<^verbatim>\<open>Compact\<close> is private and runs inside
  \<^verbatim>\<open>Insert\<close> and \<^verbatim>\<open>Update\<close>; it is listed as well). A call that fails leaves the page as
  the failing call left it.
\<close>

datatype page_op =
  OpInsert "byte list" | OpUpdate nat "byte list option" | OpErase nat | OpCompact

fun apply_page_op :: "nat \<Rightarrow> page_op \<Rightarrow> Page \<Rightarrow> Page" where
  "apply_page_op ps (OpInsert rec) pg = snd (Insert ps pg rec)"
| "apply_page_op ps (OpUpdate slot rec_ptr) pg = snd (Update ps pg slot rec_ptr)"
| "apply_page_op ps (OpErase slot) pg = snd (Erase ps pg slot)"
| "apply_page_op ps OpCompact pg = Compact ps pg"

text \<open>The header invariant of the page format.\<close>

definition header_inv :: "nat \<Rightarrow> Page \<Rightarrow> bool" where
  "header_inv page_size pg \<longleftrightarrow>
     free_off pg + free_size pg + slot_count pg * sizeof_Slot = page_size \<and>
     free_off pg \<ge> sizeof_PageHeader"

text \<open>
  Two small pages of 64 bytes used as concrete instances: three records of 3, 2 and 4
  bytes in slots 0, 1, 2, and the same page after erasing slot 0.
\<close>

definition example_page_full :: Page where
  "example_page_full =
     fold (apply_page_op 64) [OpInsert [1, 2, 3], OpInsert [4, 5], OpInsert [6, 7, 8, 9]]
       (InitNew 0 64)"

definition example_page :: Page where
  "example_page = snd (Erase 64 example_page_full 0)"

text \<open>
  A page of 64 bytes whose header equation holds but whose records overlap: slot 0 holds
  the bytes 32 to 39, slot 1 the bytes 34 and 35 inside them, and slot 2 the bytes 40 and
  41. No sequence of calls on a page of this size produces it.
\<close>

definition overlap_page :: Page where
  "overlap_page =
     \<lparr> page_id = 0, page_lsn = 0, slot_count = 3, free_off = 42, free_size = 10, checksum = 0,
       format_version = kPageFormatVersion,
       dir = (\<lambda>_. \<lparr> off = 0, len = 0 \<rparr>)
               (0 := \<lparr> off = 32, len = 8 \<rparr>, 1 := \<lparr> off = 34, len = 2 \<rparr>,
                2 := \<lparr> off = 40, len = 2 \<rparr>),
       mem = (\<lambda>_. 0)(34 := 7), compact_calls = 0 \<rparr>"

section \<open>Well-formed pages\<close>

text \<open>
  A slot is live when it is inside the directory and not a tombstone. A page is valid when
  the header equation holds, \<open>free_off\<close> is a 16-bit value behind the header, every live
  record lies between the header and \<open>free_off\<close>, and live records do not overlap.
\<close>

definition live :: "Page \<Rightarrow> nat \<Rightarrow> bool" where
  "live pg i \<longleftrightarrow> i < slot_count pg \<and> len (dir pg i) \<noteq> 0"

definition slot_end :: "Page \<Rightarrow> nat \<Rightarrow> nat" where
  "slot_end pg i = off (dir pg i) + len (dir pg i)"

definition valid_page :: "nat \<Rightarrow> Page \<Rightarrow> bool" where
  "valid_page page_size pg \<longleftrightarrow>
     sizeof_PageHeader \<le> free_off pg \<and> free_off pg < 65536 \<and>
     free_off pg + free_size pg + slot_count pg * sizeof_Slot = page_size \<and>
     (\<forall>i \<in> set [0..<slot_count pg]. live pg i \<longrightarrow>
        sizeof_PageHeader \<le> off (dir pg i) \<and> slot_end pg i \<le> free_off pg) \<and>
     (\<forall>i \<in> set [0..<slot_count pg]. \<forall>j \<in> set [0..<slot_count pg].
        live pg i \<and> live pg j \<and> i \<noteq> j \<longrightarrow>
        slot_end pg i \<le> off (dir pg j) \<or> slot_end pg j \<le> off (dir pg i))"

text \<open>What the compaction loop needs of the entries still to be moved.\<close>

definition entries_ok :: "nat \<Rightarrow> Page \<Rightarrow> nat \<Rightarrow> (nat \<times> nat \<times> nat) list \<Rightarrow> bool" where
  "entries_ok ps pg cur es \<longleftrightarrow>
     sorted (map fst es) \<and> distinct (map (fst \<circ> snd) es) \<and>
     (\<forall>(o1, i, l) \<in> set es. dir pg i = \<lparr> off = o1, len = l \<rparr> \<and> l \<noteq> 0 \<and>
        sizeof_PageHeader \<le> o1 \<and> o1 + l \<le> ps \<and> o1 + l < 65536 \<and> cur \<le> o1) \<and>
     (\<forall>(o1, i, l) \<in> set es. \<forall>(o2, j, l2) \<in> set es. i \<noteq> j \<longrightarrow> o1 + l \<le> o2 \<or> o2 + l2 \<le> o1)"

text \<open>What the compaction loop has done to the entries \<open>es\<close> once it is through them.\<close>

definition moved :: "Page \<Rightarrow> Page \<Rightarrow> nat \<Rightarrow> nat \<Rightarrow> (nat \<times> nat \<times> nat) list \<Rightarrow> bool" where
  "moved pg pg' cur cur' es \<longleftrightarrow>
     cur' = cur + sum_list (map (snd \<circ> snd) es) \<and>
     (\<forall>j. j \<notin> (fst \<circ> snd) ` set es \<longrightarrow> dir pg' j = dir pg j) \<and>
     (\<forall>a. a < cur \<longrightarrow> mem pg' a = mem pg a) \<and>
     (\<forall>(o1, i, l) \<in> set es. len (dir pg' i) = l \<and> cur \<le> off (dir pg' i) \<and>
         off (dir pg' i) + l \<le> cur' \<and>
         mem_read (mem pg') (off (dir pg' i)) l = mem_read (mem pg) o1 l) \<and>
     (\<forall>(o1, i, l) \<in> set es. \<forall>(o2, j, l2) \<in> set es. i \<noteq> j \<longrightarrow>
         off (dir pg' i) + l \<le> off (dir pg' j) \<or> off (dir pg' j) + l2 \<le> off (dir pg' i))"

text \<open>The effect of \<^verbatim>\<open>Compact\<close> on a valid page.\<close>

definition compacted :: "nat \<Rightarrow> Page \<Rightarrow> Page \<Rightarrow> bool" where
  "compacted ps pg pg' \<longleftrightarrow>
     slot_count pg' = slot_count pg \<and> compact_calls pg' = compact_calls pg + 1 \<and>
     sizeof_PageHeader \<le> free_off pg' \<and> free_off pg' \<le> free_off pg \<and>
     free_size pg' = u16 (int ps - int (free_off pg') - int (slot_count pg * sizeof_Slot)) \<and>
     (\<forall>i. len (dir pg' i) = len (dir pg i)) \<and>
     (\<forall>i. \<not> live pg i \<longrightarrow> dir pg' i = dir pg i) \<and>
     (\<forall>i. live pg i \<longrightarrow> sizeof_PageHeader \<le> off (dir pg' i) \<and> slot_end pg' i \<le> free_off pg' \<and>
        mem_read (mem pg') (off (dir pg' i)) (len (dir pg i)) =
        mem_read (mem pg) (off (dir pg i)) (len (dir pg i))) \<and>
     (\<forall>i j. live pg i \<and> live pg j \<and> i \<noteq> j \<longrightarrow>
        slot_end pg' i \<le> off (dir pg' j) \<or> slot_end pg' j \<le> off (dir pg' i))"

text \<open>The number of payload bytes of the live records.\<close>

definition payload :: "Page \<Rightarrow> nat" where
  "payload pg = sum_list (map (\<lambda>i. len (dir pg i)) [0..<slot_count pg])"


section \<open>Compaction and the page invariant\<close>

lemma u16_id: "0 \<le> i \<Longrightarrow> i < 65536 \<Longrightarrow> u16 i = nat i"
  by (simp add: u16_def)

lemma compact_step_hdr:
  "compact_step ps e (pg, cur) = (pg', cur') \<Longrightarrow>
   slot_count pg' = slot_count pg \<and> compact_calls pg' = compact_calls pg \<and>
   free_off pg' = free_off pg \<and> free_size pg' = free_size pg \<and> page_id pg' = page_id pg
   \<and> page_lsn pg' = page_lsn pg \<and> checksum pg' = checksum pg \<and> format_version pg' = format_version pg"
  by (cases e) (auto split: if_splits)

lemma fold_compact_hdr:
  "fold (compact_step ps) es (pg, cur) = (pg', cur') \<Longrightarrow>
   slot_count pg' = slot_count pg \<and> compact_calls pg' = compact_calls pg \<and>
   free_off pg' = free_off pg \<and> free_size pg' = free_size pg \<and> page_id pg' = page_id pg
   \<and> page_lsn pg' = page_lsn pg \<and> checksum pg' = checksum pg \<and> format_version pg' = format_version pg"
proof (induction es arbitrary: pg cur)
  case Nil
  then show ?case by simp
next
  case (Cons e es)
  obtain pg1 cur1 where s: "compact_step ps e (pg, cur) = (pg1, cur1)"
    by (cases "compact_step ps e (pg, cur)")
  from Cons.prems s have "fold (compact_step ps) es (pg1, cur1) = (pg', cur')" by simp
  from Cons.IH[OF this] compact_step_hdr[OF s] show ?case by simp
qed

lemma entries_ok_Cons:
  assumes "entries_ok ps pg cur ((o1, i, l) # es)"
  shows "entries_ok ps (pg\<lparr> mem := mem_move (mem pg) cur o1 l,
                dir := (dir pg)(i := (dir pg i)\<lparr> off := cur \<rparr>) \<rparr>) (cur + l) es"
proof -
  from assms have srt: "sorted (map fst es)" and le: "\<forall>e \<in> set es. o1 \<le> fst e"
    and dst: "distinct (map (fst \<circ> snd) es)" and ni: "i \<notin> (fst \<circ> snd) ` set es"
    by (auto simp: entries_ok_def)
  from assms have l0: "l \<noteq> 0" by (auto simp: entries_ok_def)
  have each: "\<And>o2 j l2. (o2, j, l2) \<in> set es \<Longrightarrow>
        dir pg j = \<lparr> off = o2, len = l2 \<rparr> \<and> l2 \<noteq> 0 \<and> sizeof_PageHeader \<le> o2 \<and> o2 + l2 \<le> ps \<and> o2 + l2 < 65536
        \<and> j \<noteq> i \<and> cur + l \<le> o2"
  proof -
    fix o2 j l2 assume m: "(o2, j, l2) \<in> set es"
    from assms have c: "cur \<le> o1" by (auto simp: entries_ok_def)
    from m ni have ji: "j \<noteq> i" by force
    from m le have o12: "o1 \<le> o2" by force
    from assms m have a: "dir pg j = \<lparr> off = o2, len = l2 \<rparr> \<and> l2 \<noteq> 0 \<and> sizeof_PageHeader \<le> o2 \<and> o2 + l2 \<le> ps \<and> o2 + l2 < 65536"
      by (auto simp: entries_ok_def)
    from assms m ji have "o1 + l \<le> o2 \<or> o2 + l2 \<le> o1"
      by (auto simp: entries_ok_def)
    with o12 a have "o1 + l \<le> o2" by auto
    with a ji c show "dir pg j = \<lparr> off = o2, len = l2 \<rparr> \<and> l2 \<noteq> 0 \<and> sizeof_PageHeader \<le> o2 \<and> o2 + l2 \<le> ps \<and> o2 + l2 < 65536
        \<and> j \<noteq> i \<and> cur + l \<le> o2" by simp
  qed
  have pw: "\<forall>(o1, i, l) \<in> set es. \<forall>(o2, j, l2) \<in> set es. i \<noteq> j \<longrightarrow> o1 + l \<le> o2 \<or> o2 + l2 \<le> o1"
    using assms by (auto simp: entries_ok_def)
  show ?thesis
    unfolding entries_ok_def
    using srt dst pw each by auto
qed

lemma mem_read_eq_iff:
  "mem_read m a n = mem_read m' b n \<longleftrightarrow> (\<forall>k<n. m (a + k) = m' (b + k))"
  by (auto simp: mem_read_def list_eq_iff_nth_eq)

lemma length_mem_read [simp]: "length (mem_read m a n) = n"
  by (simp add: mem_read_def)

lemma fold_compact_moved:
  assumes "entries_ok ps pg cur es"
    and "fold (compact_step ps) es (pg, cur) = (pg', cur')"
  shows "moved pg pg' cur cur' es"
  using assms
proof (induction es arbitrary: pg cur)
  case Nil
  then show ?case by (simp add: moved_def)
next
  case (Cons e es)
  obtain o1 i l where e: "e = (o1, i, l)" by (cases e)
  define pg1 where "pg1 = pg\<lparr> mem := mem_move (mem pg) cur o1 l,
                dir := (dir pg)(i := (dir pg i)\<lparr> off := cur \<rparr>) \<rparr>"
  from Cons.prems(1) e have hd: "dir pg i = \<lparr> off = o1, len = l \<rparr>" "l \<noteq> 0"
      "sizeof_PageHeader \<le> o1" "o1 + l \<le> ps" "o1 + l < 65536" "cur \<le> o1"
    and ni: "i \<notin> (fst \<circ> snd) ` set es"
    by (auto simp: entries_ok_def)
  from hd have cl: "u16 (int cur + int l) = cur + l"
    by (simp add: u16_def)
  have ok1: "entries_ok ps pg1 (cur + l) es"
    using entries_ok_Cons[of ps pg cur o1 i l es] Cons.prems(1) e by (simp add: pg1_def)
  from Cons.prems(2) e hd cl have f1: "fold (compact_step ps) es (pg1, cur + l) = (pg', cur')"
    by (simp add: pg1_def)
  from Cons.IH[OF ok1 f1] have ih: "moved pg1 pg' (cur + l) cur' es" .
  have tl: "\<And>o2 j l2. (o2, j, l2) \<in> set es \<Longrightarrow> j \<noteq> i \<and> cur + l \<le> o2"
    using ok1 ni by (force simp: entries_ok_def)
  have a: "cur' = cur + sum_list (map (snd \<circ> snd) (e # es))"
    using ih e by (simp add: moved_def)
  have b: "\<forall>j. j \<notin> (fst \<circ> snd) ` set (e # es) \<longrightarrow> dir pg' j = dir pg j"
    using ih e by (auto simp: moved_def pg1_def)
  have c: "\<forall>a. a < cur \<longrightarrow> mem pg' a = mem pg a"
    using ih by (auto simp: moved_def pg1_def mem_move_def)
  have le: "cur + l \<le> cur'"
    using ih by (simp add: moved_def)
  have di: "dir pg' i = \<lparr> off = cur, len = l \<rparr>"
    using ih ni hd by (auto simp: moved_def pg1_def)
  have mi: "mem_read (mem pg') cur l = mem_read (mem pg) o1 l"
  proof -
    have "\<And>k. k < l \<Longrightarrow> mem pg' (cur + k) = mem pg (o1 + k)"
    proof -
      fix k assume "k < l"
      then have "mem pg' (cur + k) = mem pg1 (cur + k)"
        using ih by (simp add: moved_def)
      also have "\<dots> = mem pg (o1 + k)"
        using \<open>k < l\<close> by (simp add: pg1_def mem_move_def)
      finally show "mem pg' (cur + k) = mem pg (o1 + k)" .
    qed
    then show ?thesis by (simp add: mem_read_eq_iff)
  qed
  have d_tl: "\<And>o2 j l2. (o2, j, l2) \<in> set es \<Longrightarrow>
       len (dir pg' j) = l2 \<and> cur + l \<le> off (dir pg' j) \<and> off (dir pg' j) + l2 \<le> cur' \<and>
       mem_read (mem pg') (off (dir pg' j)) l2 = mem_read (mem pg) o2 l2"
  proof -
    fix o2 j l2 assume m: "(o2, j, l2) \<in> set es"
    from ih m have x: "len (dir pg' j) = l2 \<and> cur + l \<le> off (dir pg' j) \<and>
        off (dir pg' j) + l2 \<le> cur' \<and>
        mem_read (mem pg') (off (dir pg' j)) l2 = mem_read (mem pg1) o2 l2"
      by (auto simp: moved_def)
    from tl[OF m] have "\<And>k. mem pg1 (o2 + k) = mem pg (o2 + k)"
      by (simp add: pg1_def mem_move_def)
    then have "mem_read (mem pg1) o2 l2 = mem_read (mem pg) o2 l2"
      by (simp add: mem_read_eq_iff)
    with x show "len (dir pg' j) = l2 \<and> cur + l \<le> off (dir pg' j) \<and> off (dir pg' j) + l2 \<le> cur' \<and>
       mem_read (mem pg') (off (dir pg' j)) l2 = mem_read (mem pg) o2 l2" by simp
  qed
  have d: "\<forall>(o1, i, l) \<in> set (e # es). len (dir pg' i) = l \<and> cur \<le> off (dir pg' i) \<and>
         off (dir pg' i) + l \<le> cur' \<and>
         mem_read (mem pg') (off (dir pg' i)) l = mem_read (mem pg) o1 l"
  proof -
    have "\<And>o2 j l2. (o2, j, l2) \<in> set es \<Longrightarrow> cur \<le> off (dir pg' j)"
      using d_tl by fastforce
    with e di mi le d_tl show ?thesis by auto
  qed
  have pw_tl: "\<forall>(o1, i, l) \<in> set es. \<forall>(o2, j, l2) \<in> set es. i \<noteq> j \<longrightarrow>
         off (dir pg' i) + l \<le> off (dir pg' j) \<or> off (dir pg' j) + l2 \<le> off (dir pg' i)"
    using ih by (simp add: moved_def)
  have pw: "\<forall>(o1, i, l) \<in> set (e # es). \<forall>(o2, j, l2) \<in> set (e # es). i \<noteq> j \<longrightarrow>
         off (dir pg' i) + l \<le> off (dir pg' j) \<or> off (dir pg' j) + l2 \<le> off (dir pg' i)"
    using e di d_tl pw_tl by (auto; fastforce)
  show ?case
    unfolding moved_def using a b c d pw by blast
qed

lemma entries_sum_bound:
  assumes "entries_ok ps pg cur es" and "\<forall>(o1, i, l) \<in> set es. o1 + l \<le> B" and "cur \<le> B"
  shows "cur + sum_list (map (snd \<circ> snd) es) \<le> B"
  using assms
proof (induction es arbitrary: pg cur)
  case Nil
  then show ?case by simp
next
  case (Cons e es)
  obtain o1 i l where e: "e = (o1, i, l)" by (cases e)
  from Cons.prems(1) e have c: "cur \<le> o1" by (auto simp: entries_ok_def)
  from Cons.prems(2) e have b: "o1 + l \<le> B" by simp
  have ok1: "entries_ok ps (pg\<lparr> mem := mem_move (mem pg) cur o1 l,
                dir := (dir pg)(i := (dir pg i)\<lparr> off := cur \<rparr>) \<rparr>) (cur + l) es"
    using entries_ok_Cons[of ps pg cur o1 i l es] Cons.prems(1) e by simp
  from Cons.prems(2) have "\<forall>(o1, i, l) \<in> set es. o1 + l \<le> B" by simp
  from Cons.IH[OF ok1 this] b c have "cur + l + sum_list (map (snd \<circ> snd) es) \<le> B"
    by (simp add: comp_def)
  then show ?case using e by (simp add: comp_def)
qed

lemma set_lives:
  "set (lives pg) = {(off (dir pg i), i, len (dir pg i)) | i. live pg i}"
  by (auto simp: lives_def live_def)

lemma distinct_lives_slots: "distinct (map (fst \<circ> snd) (lives pg))"
  by (simp add: lives_def distinct_map comp_def inj_on_def)

lemma lives_entries_ok:
  assumes "valid_page ps pg"
  shows "entries_ok ps pg sizeof_PageHeader (sort_key fst (lives pg))"
proof -
  have s: "sorted (map fst (sort_key fst (lives pg)))" by simp
  have d: "distinct (map (fst \<circ> snd) (sort_key fst (lives pg)))"
    using distinct_lives_slots[of pg] by (simp add: distinct_map)
  have lv: "\<And>i. live pg i \<Longrightarrow> i < slot_count pg" by (simp add: live_def)
  from assms have v1: "\<And>i. live pg i \<Longrightarrow>
      sizeof_PageHeader \<le> off (dir pg i) \<and> slot_end pg i \<le> free_off pg"
    using lv by (auto simp: valid_page_def)
  from assms have v2: "\<And>i j. live pg i \<Longrightarrow> live pg j \<Longrightarrow> i \<noteq> j \<Longrightarrow>
      slot_end pg i \<le> off (dir pg j) \<or> slot_end pg j \<le> off (dir pg i)"
    using lv by (auto simp: valid_page_def)
  from assms have h: "free_off pg < 65536" "free_off pg \<le> ps" by (auto simp: valid_page_def)
  have e: "\<forall>(o1, i, l) \<in> set (sort_key fst (lives pg)). dir pg i = \<lparr> off = o1, len = l \<rparr> \<and> l \<noteq> 0 \<and>
        sizeof_PageHeader \<le> o1 \<and> o1 + l \<le> ps \<and> o1 + l < 65536 \<and> sizeof_PageHeader \<le> o1"
    using v1 h by (auto simp: set_lives live_def slot_end_def) fastforce+
  have p: "\<forall>(o1, i, l) \<in> set (sort_key fst (lives pg)). \<forall>(o2, j, l2) \<in> set (sort_key fst (lives pg)).
        i \<noteq> j \<longrightarrow> o1 + l \<le> o2 \<or> o2 + l2 \<le> o1"
    using v2 by (auto simp: set_lives slot_end_def)
  show ?thesis unfolding entries_ok_def using s d e p by blast
qed

lemma Compact_compacted:
  assumes v: "valid_page ps pg"
  shows "compacted ps pg (Compact ps pg)"
proof -
  let ?es = "sort_key fst (lives pg)"
  obtain pg1 cur where f: "fold (compact_step ps) ?es (pg, sizeof_PageHeader) = (pg1, cur)"
    by (cases "fold (compact_step ps) ?es (pg, sizeof_PageHeader)")
  have u: "u16 (int sizeof_PageHeader) = sizeof_PageHeader" by (simp add: u16_def)
  have C: "Compact ps pg = pg1\<lparr> free_off := cur,
              free_size := u16 (int ps - int cur - int (slot_count pg * sizeof_Slot)),
              compact_calls := compact_calls pg1 + 1 \<rparr>"
    using f u by (simp add: Compact_def Let_def)
  have ok: "entries_ok ps pg sizeof_PageHeader ?es" by (rule lives_entries_ok[OF v])
  from fold_compact_moved[OF ok f] have m: "moved pg pg1 sizeof_PageHeader cur ?es" .
  from fold_compact_hdr[OF f] have h: "slot_count pg1 = slot_count pg"
    "compact_calls pg1 = compact_calls pg" by simp_all
  have lv: "\<And>i. live pg i \<Longrightarrow> i < slot_count pg" by (simp add: live_def)
  have bnd: "\<forall>(o1, i, l) \<in> set ?es. o1 + l \<le> free_off pg"
    using v lv by (auto simp: valid_page_def set_lives slot_end_def)
  from v have "sizeof_PageHeader \<le> free_off pg" by (simp add: valid_page_def)
  from entries_sum_bound[OF ok bnd this] m have cur_le: "cur \<le> free_off pg"
    by (simp add: moved_def)
  from m have cur_ge: "sizeof_PageHeader \<le> cur" by (simp add: moved_def)
  have slots: "(fst \<circ> snd) ` set ?es = {i. live pg i}"
    by (auto simp: set_lives image_def) 
  have nl: "\<And>i. \<not> live pg i \<Longrightarrow> dir pg1 i = dir pg i"
    using m slots unfolding moved_def by blast
  have li: "\<And>i. live pg i \<Longrightarrow> len (dir pg1 i) = len (dir pg i) \<and>
       sizeof_PageHeader \<le> off (dir pg1 i) \<and> off (dir pg1 i) + len (dir pg i) \<le> cur \<and>
       mem_read (mem pg1) (off (dir pg1 i)) (len (dir pg i)) =
        mem_read (mem pg) (off (dir pg i)) (len (dir pg i))"
  proof -
    fix i assume "live pg i"
    then have "(off (dir pg i), i, len (dir pg i)) \<in> set ?es" by (auto simp: set_lives)
    with m show "len (dir pg1 i) = len (dir pg i) \<and>
       sizeof_PageHeader \<le> off (dir pg1 i) \<and> off (dir pg1 i) + len (dir pg i) \<le> cur \<and>
       mem_read (mem pg1) (off (dir pg1 i)) (len (dir pg i)) =
        mem_read (mem pg) (off (dir pg i)) (len (dir pg i))"
      unfolding moved_def by fast
  qed
  have ln: "\<And>i. len (dir pg1 i) = len (dir pg i)"
    using nl li by metis
  have pw: "\<And>i j. live pg i \<Longrightarrow> live pg j \<Longrightarrow> i \<noteq> j \<Longrightarrow>
        off (dir pg1 i) + len (dir pg i) \<le> off (dir pg1 j) \<or>
        off (dir pg1 j) + len (dir pg j) \<le> off (dir pg1 i)"
  proof -
    fix i j assume a: "live pg i" "live pg j" "i \<noteq> j"
    then have "(off (dir pg i), i, len (dir pg i)) \<in> set ?es"
      "(off (dir pg j), j, len (dir pg j)) \<in> set ?es" by (auto simp: set_lives)
    with m a(3) show "off (dir pg1 i) + len (dir pg i) \<le> off (dir pg1 j) \<or>
        off (dir pg1 j) + len (dir pg j) \<le> off (dir pg1 i)"
      unfolding moved_def by fast
  qed
  show ?thesis
    unfolding compacted_def C using h cur_le cur_ge nl li ln pw
    by (simp add: slot_end_def)
qed

lemma valid_page_Compact:
  assumes v: "valid_page ps pg" and ps: "ps \<le> 65536"
  shows "valid_page ps (Compact ps pg)"
proof -
  let ?pg' = "Compact ps pg"
  from Compact_compacted[OF v] have c: "compacted ps pg ?pg'" .
  then have n: "slot_count ?pg' = slot_count pg" and fo: "sizeof_PageHeader \<le> free_off ?pg'"
    "free_off ?pg' \<le> free_off pg"
    and fs: "free_size ?pg' = u16 (int ps - int (free_off ?pg') - int (slot_count pg * sizeof_Slot))"
    and ln: "\<And>i. len (dir ?pg' i) = len (dir pg i)"
    by (simp_all add: compacted_def)
  from v have h: "free_off pg < 65536" "free_off pg + free_size pg + slot_count pg * sizeof_Slot = ps"
    by (simp_all add: valid_page_def)
  from h fo ps have "free_size ?pg' = ps - free_off ?pg' - slot_count pg * sizeof_Slot"
    unfolding fs u16_def by (simp add: nat_diff_distrib' of_nat_diff)
  with h fo n have eq: "free_off ?pg' + free_size ?pg' + slot_count ?pg' * sizeof_Slot = ps"
    by simp
  have lv: "\<And>i. live ?pg' i = live pg i" by (simp add: live_def n ln)
  from c have a: "\<forall>i. live pg i \<longrightarrow> sizeof_PageHeader \<le> off (dir ?pg' i) \<and> slot_end ?pg' i \<le> free_off ?pg'"
    and b: "\<forall>i j. live pg i \<and> live pg j \<and> i \<noteq> j \<longrightarrow>
        slot_end ?pg' i \<le> off (dir ?pg' j) \<or> slot_end ?pg' j \<le> off (dir ?pg' i)"
    unfolding compacted_def by blast+
  show ?thesis
    unfolding valid_page_def using fo h(1) eq a b lv by auto
qed

lemma Get_live:
  assumes "valid_page ps pg" and "live pg i"
  shows "Get ps pg i = Inr (mem_read (mem pg) (off (dir pg i)) (len (dir pg i)))"
proof -
  from assms have "sizeof_PageHeader \<le> off (dir pg i)" "slot_end pg i \<le> free_off pg" "free_off pg \<le> ps"
    by (auto simp: valid_page_def live_def)
  with assms(2) show ?thesis
    by (auto simp: Get_def live_def slot_end_def Let_def)
qed

lemma Compact_Get:
  assumes v: "valid_page ps pg" and l: "live pg i"
  shows "Get ps (Compact ps pg) i = Get ps pg i"
proof -
  let ?pg' = "Compact ps pg"
  from Compact_compacted[OF v] have c: "compacted ps pg ?pg'" .
  from c l have n: "slot_count ?pg' = slot_count pg" and ln: "len (dir ?pg' i) = len (dir pg i)"
    and o: "sizeof_PageHeader \<le> off (dir ?pg' i)" "slot_end ?pg' i \<le> free_off ?pg'"
    and fo: "free_off ?pg' \<le> free_off pg"
    and m: "mem_read (mem ?pg') (off (dir ?pg' i)) (len (dir pg i)) =
        mem_read (mem pg) (off (dir pg i)) (len (dir pg i))"
    by (simp_all add: compacted_def)
  from v have "free_off pg \<le> ps" by (simp add: valid_page_def)
  with o fo l n ln have "Get ps ?pg' i = Inr (mem_read (mem ?pg') (off (dir ?pg' i)) (len (dir pg i)))"
    by (auto simp: Get_def live_def slot_end_def Let_def)
  with m Get_live[OF v l] show ?thesis by simp
qed

lemma valid_page_InitNew:
  assumes "sizeof_PageHeader \<le> ps" and "ps \<le> 65536"
  shows "valid_page ps (InitNew pid ps)"
  using assms by (simp add: valid_page_def InitNew_def u16_def live_def nat_diff_distrib')

lemma valid_page_Erase:
  assumes v: "valid_page ps pg"
  shows "valid_page ps (snd (Erase ps pg slot))"
  using v unfolding Erase_def valid_page_def live_def slot_end_def
  by (auto simp: Let_def)

lemma valid_page_place:
  assumes v: "valid_page ps pg" and ps: "ps \<le> 65536"
    and i: "i < slot_count pg" and l: "l \<le> free_size pg"
  shows "valid_page ps (pg\<lparr> mem := m, dir := (dir pg)(i := \<lparr> off = free_off pg, len = l \<rparr>),
            free_off := u16 (int (free_off pg) + int l),
            free_size := u16 (int (free_size pg) - int l) \<rparr>)"
proof -
  from v have h: "sizeof_PageHeader \<le> free_off pg"
    "free_off pg + free_size pg + slot_count pg * sizeof_Slot = ps"
    by (simp_all add: valid_page_def)
  from h i l ps have fo: "u16 (int (free_off pg) + int l) = free_off pg + l"
    by (simp add: u16_def)
  from h i l ps have fs: "u16 (int (free_size pg) - int l) = free_size pg - l"
    by (simp add: u16_def nat_diff_distrib')
  show ?thesis
    using v i l h ps unfolding fo fs valid_page_def live_def slot_end_def
    by (auto; fastforce)
qed

lemma valid_page_iff:
  "valid_page ps pg \<longleftrightarrow>
     sizeof_PageHeader \<le> free_off pg \<and> free_off pg < 65536 \<and>
     free_off pg + free_size pg + slot_count pg * sizeof_Slot = ps \<and>
     (\<forall>i. live pg i \<longrightarrow> sizeof_PageHeader \<le> off (dir pg i) \<and> slot_end pg i \<le> free_off pg) \<and>
     (\<forall>i j. live pg i \<and> live pg j \<and> i \<noteq> j \<longrightarrow>
        slot_end pg i \<le> off (dir pg j) \<or> slot_end pg j \<le> off (dir pg i))"
proof -
  have a: "(\<forall>i \<in> set [0..<slot_count pg]. live pg i \<longrightarrow>
        sizeof_PageHeader \<le> off (dir pg i) \<and> slot_end pg i \<le> free_off pg) \<longleftrightarrow>
     (\<forall>i. live pg i \<longrightarrow> sizeof_PageHeader \<le> off (dir pg i) \<and> slot_end pg i \<le> free_off pg)"
    by (auto simp: live_def)
  have b: "(\<forall>i \<in> set [0..<slot_count pg]. \<forall>j \<in> set [0..<slot_count pg].
        live pg i \<and> live pg j \<and> i \<noteq> j \<longrightarrow>
        slot_end pg i \<le> off (dir pg j) \<or> slot_end pg j \<le> off (dir pg i)) \<longleftrightarrow>
     (\<forall>i j. live pg i \<and> live pg j \<and> i \<noteq> j \<longrightarrow>
        slot_end pg i \<le> off (dir pg j) \<or> slot_end pg j \<le> off (dir pg i))"
    by (simp add: Ball_def live_def; blast)
  show ?thesis unfolding valid_page_def a b ..
qed

lemma valid_page_overwrite:
  assumes v: "valid_page ps pg" and i: "i < slot_count pg" and l: "l \<le> len (dir pg i)"
  shows "valid_page ps (pg\<lparr> mem := m, dir := (dir pg)(i := (dir pg i)\<lparr> len := l \<rparr>) \<rparr>)"
proof -
  let ?pg' = "pg\<lparr> mem := m, dir := (dir pg)(i := (dir pg i)\<lparr> len := l \<rparr>) \<rparr>"
  have o: "\<And>j. off (dir ?pg' j) = off (dir pg j)" by simp
  have e: "\<And>j. slot_end ?pg' j \<le> slot_end pg j" using l by (simp add: slot_end_def)
  have lv: "\<And>j. live ?pg' j \<Longrightarrow> live pg j" using l by (auto simp: live_def split: if_splits)
  have h: "free_off ?pg' = free_off pg" "free_size ?pg' = free_size pg"
    "slot_count ?pg' = slot_count pg" by simp_all
  have a: "\<And>j. live ?pg' j \<Longrightarrow>
        sizeof_PageHeader \<le> off (dir ?pg' j) \<and> slot_end ?pg' j \<le> free_off pg"
  proof -
    fix j assume j: "live ?pg' j"
    from v lv[OF j] have "sizeof_PageHeader \<le> off (dir pg j) \<and> slot_end pg j \<le> free_off pg"
      by (simp add: valid_page_iff)
    with o[of j] e[of j] show "sizeof_PageHeader \<le> off (dir ?pg' j) \<and> slot_end ?pg' j \<le> free_off pg"
      by linarith
  qed
  have b: "\<And>j k. live ?pg' j \<Longrightarrow> live ?pg' k \<Longrightarrow>
        j \<noteq> k \<Longrightarrow> slot_end ?pg' j \<le> off (dir ?pg' k) \<or> slot_end ?pg' k \<le> off (dir ?pg' j)"
  proof -
    fix j k assume j: "live ?pg' j" "live ?pg' k" "j \<noteq> k"
    from v j(3) lv[OF j(1)] lv[OF j(2)]
    have "slot_end pg j \<le> off (dir pg k) \<or> slot_end pg k \<le> off (dir pg j)"
      by (simp add: valid_page_iff)
    with o[of j] o[of k] e[of j] e[of k]
    show "slot_end ?pg' j \<le> off (dir ?pg' k) \<or> slot_end ?pg' k \<le> off (dir ?pg' j)"
      by linarith
  qed
  from v have g: "sizeof_PageHeader \<le> free_off pg" "free_off pg < 65536"
     "free_off pg + free_size pg + slot_count pg * sizeof_Slot = ps"
    by (simp_all add: valid_page_iff)
  show ?thesis
    unfolding valid_page_iff h using g a b by blast
qed

lemma valid_page_place_new:
  assumes v: "valid_page ps pg" and ps: "ps \<le> 65536"
    and l: "l + sizeof_Slot \<le> free_size pg"
  shows "valid_page ps (pg\<lparr> mem := m,
            dir := (dir pg)(slot_count pg := \<lparr> off = free_off pg, len = l \<rparr>),
            free_off := u16 (int (free_off pg) + int l),
            slot_count := u16 (int (slot_count pg) + 1),
            free_size := u16 (int (u16 (int (free_size pg) - int l)) - int sizeof_Slot) \<rparr>)"
proof -
  from v have h: "sizeof_PageHeader \<le> free_off pg"
    "free_off pg + free_size pg + slot_count pg * sizeof_Slot = ps"
    by (simp_all add: valid_page_def)
  from h l ps have fo: "u16 (int (free_off pg) + int l) = free_off pg + l"
    by (simp add: u16_def)
  from h l ps have fs: "u16 (int (free_size pg) - int l) = free_size pg - l"
    by (simp add: u16_def nat_diff_distrib')
  from h l ps have fs2: "u16 (int (free_size pg - l) - int sizeof_Slot) = free_size pg - l - sizeof_Slot"
    by (simp add: u16_def nat_diff_distrib')
  from h l ps have sc: "u16 (int (slot_count pg) + 1) = slot_count pg + 1"
    by (simp add: u16_def)
  show ?thesis
    using v l h ps unfolding fo fs fs2 sc valid_page_def live_def slot_end_def
    by (auto simp: less_Suc_eq; fastforce)
qed

lemma valid_page_Update:
  assumes v: "valid_page ps pg" and ps: "ps \<le> 65536"
  shows "valid_page ps (snd (Update ps pg slot rec_ptr))"
proof (cases rec_ptr)
  case None
  with v show ?thesis by (simp add: Update_def)
next
  case (Some rec)
  define pg1 where "pg1 = (if free_size pg < length rec then Compact ps pg else pg)"
  have v1: "valid_page ps pg1"
    using v ps by (simp add: pg1_def valid_page_Compact)
  have n1: "slot_count pg1 = slot_count pg"
    using Compact_compacted[OF v] by (simp add: pg1_def compacted_def)
  have fs: "\<not> (free_size pg < length rec \<and> free_size pg1 < length rec) \<Longrightarrow> length rec \<le> free_size pg1"
    by (auto simp: pg1_def)
  show ?thesis
    unfolding Some Update_def option.case Let_def pg1_def[symmetric]
    using v v1 valid_page_overwrite[OF v] valid_page_place[OF v1 ps] n1 fs
    by (simp del: One_nat_def)
qed

lemma find_free_Some:
  assumes "find (\<lambda>i. len (dir pg i) = 0) [0..<n] = Some i"
  shows "i < n \<and> len (dir pg i) = 0 \<and> (\<forall>j<i. len (dir pg j) \<noteq> 0)"
  using assms by (auto simp: find_Some_iff)

lemma find_free_None:
  assumes "find (\<lambda>i. len (dir pg i) = 0) [0..<n] = None"
  shows "\<forall>j<n. len (dir pg j) \<noteq> 0"
  using assms by (auto simp: find_None_iff)

lemma valid_page_cong:
  assumes "slot_count pg' = slot_count pg" "free_off pg' = free_off pg"
    "free_size pg' = free_size pg" "dir pg' = dir pg"
  shows "valid_page ps pg' = valid_page ps pg"
  using assms by (simp add: valid_page_def live_def slot_end_def)

lemma valid_page_placeI:
  assumes "valid_page ps pg" and "ps \<le> 65536"
    and "i < slot_count pg" and "l \<le> free_size pg"
    and "slot_count pg' = slot_count pg"
    and "dir pg' = (dir pg)(i := \<lparr> off = free_off pg, len = l \<rparr>)"
    and "free_off pg' = u16 (int (free_off pg) + int l)"
    and "free_size pg' = u16 (int (free_size pg) - int l)"
  shows "valid_page ps pg'"
  using valid_page_place[OF assms(1-4), of "mem pg"] assms(5-8)
  by (subst valid_page_cong[where pg = "pg\<lparr> mem := mem pg, dir := (dir pg)(i := \<lparr> off = free_off pg, len = l \<rparr>),
            free_off := u16 (int (free_off pg) + int l),
            free_size := u16 (int (free_size pg) - int l) \<rparr>"]) simp_all

lemma valid_page_place_newI:
  assumes "valid_page ps pg" and "ps \<le> 65536"
    and "l + sizeof_Slot \<le> free_size pg"
    and "slot_count pg' = u16 (int (slot_count pg) + 1)"
    and "dir pg' = (dir pg)(slot_count pg := \<lparr> off = free_off pg, len = l \<rparr>)"
    and "free_off pg' = u16 (int (free_off pg) + int l)"
    and "free_size pg' = u16 (int (u16 (int (free_size pg) - int l)) - int sizeof_Slot)"
  shows "valid_page ps pg'"
  using valid_page_place_new[OF assms(1-3), of "mem pg"] assms(4-7)
  by (subst valid_page_cong[where pg = "pg\<lparr> mem := mem pg,
            dir := (dir pg)(slot_count pg := \<lparr> off = free_off pg, len = l \<rparr>),
            free_off := u16 (int (free_off pg) + int l),
            slot_count := u16 (int (slot_count pg) + 1),
            free_size := u16 (int (u16 (int (free_size pg) - int l)) - int sizeof_Slot) \<rparr>"]) simp_all

lemma valid_page_Insert:
  assumes v: "valid_page ps pg" and ps: "ps \<le> 65536"
  shows "valid_page ps (snd (Insert ps pg rec))"
proof (cases "find (\<lambda>i. len (dir pg i) = 0) [0..<slot_count pg]")
  case None
  define pg1 where "pg1 = (if free_size pg < length rec + sizeof_Slot then Compact ps pg else pg)"
  have v1: "valid_page ps pg1"
    using v ps by (simp add: pg1_def valid_page_Compact)
  show ?thesis
  proof (cases "length rec = 0 \<or> free_size pg1 < length rec + sizeof_Slot")
    case True
    then show ?thesis using v v1 by (auto simp: Insert_def Let_def None pg1_def)
  next
    case False
    then have fs: "length rec + sizeof_Slot \<le> free_size pg1" by simp
    show ?thesis
      by (rule valid_page_place_newI[OF v1 ps fs])
         (use False in \<open>auto simp: Insert_def Let_def None pg1_def\<close>)
  qed
next
  case (Some i)
  define pg1 where "pg1 = (if free_size pg < length rec then Compact ps pg else pg)"
  have v1: "valid_page ps pg1"
    using v ps by (simp add: pg1_def valid_page_Compact)
  have n1: "slot_count pg1 = slot_count pg"
    using Compact_compacted[OF v] by (simp add: pg1_def compacted_def)
  from find_free_Some[OF Some] n1 have i: "i < slot_count pg1" by simp
  show ?thesis
  proof (cases "length rec = 0 \<or> free_size pg1 < length rec")
    case True
    then show ?thesis using v v1 by (auto simp: Insert_def Let_def Some pg1_def)
  next
    case False
    then have fs: "length rec \<le> free_size pg1" by simp
    show ?thesis
      by (rule valid_page_placeI[OF v1 ps i fs])
         (use False in \<open>auto simp: Insert_def Let_def Some pg1_def\<close>)
  qed
qed

lemma valid_page_apply:
  "valid_page ps pg \<Longrightarrow> ps \<le> 65536 \<Longrightarrow> valid_page ps (apply_page_op ps op pg)"
  by (cases op) (simp_all add: valid_page_Insert valid_page_Update valid_page_Erase valid_page_Compact)

lemma valid_page_fold:
  "valid_page ps pg \<Longrightarrow> ps \<le> 65536 \<Longrightarrow> valid_page ps (fold (apply_page_op ps) ops pg)"
  by (induction ops arbitrary: pg) (simp_all add: valid_page_apply)

lemma Compact_counts:
  "compact_calls (Compact ps pg) = compact_calls pg + 1 \<and> slot_count (Compact ps pg) = slot_count pg"
proof -
  obtain pg1 cur where f: "fold (compact_step ps) (sort_key fst (lives pg)) (pg, u16 (int sizeof_PageHeader)) = (pg1, cur)"
    by (cases "fold (compact_step ps) (sort_key fst (lives pg)) (pg, u16 (int sizeof_PageHeader))")
  from fold_compact_hdr[OF f] show ?thesis
    using f by (simp add: Compact_def Let_def)
qed



lemma sum_list_insort_key:
  "sum_list (map f (insort_key k x xs)) = (f x + sum_list (map f xs) :: nat)"
  by (induction xs) auto

lemma sum_list_sort_key:
  "sum_list (map f (sort_key k xs)) = (sum_list (map f xs) :: nat)"
  by (induction xs) (simp_all add: sum_list_insort_key)

lemma sum_list_filter_nonzero:
  "sum_list (map f (filter (\<lambda>i. f i \<noteq> 0) xs)) = (sum_list (map f xs) :: nat)"
  by (induction xs) simp_all

lemma sum_lives: "sum_list (map (snd \<circ> snd) (lives pg)) = payload pg"
  unfolding lives_def payload_def
  using sum_list_filter_nonzero[of "\<lambda>i. len (dir pg i)" "[0..<slot_count pg]"]
  by (simp add: comp_def)

lemma Compact_free_off:
  assumes v: "valid_page ps pg"
  shows "free_off (Compact ps pg) = sizeof_PageHeader + payload pg"
proof -
  let ?es = "sort_key fst (lives pg)"
  obtain pg1 cur where f: "fold (compact_step ps) ?es (pg, sizeof_PageHeader) = (pg1, cur)"
    by (cases "fold (compact_step ps) ?es (pg, sizeof_PageHeader)")
  have u: "u16 (int sizeof_PageHeader) = sizeof_PageHeader" by (simp add: u16_def)
  have C: "free_off (Compact ps pg) = cur"
    using f u by (simp add: Compact_def Let_def)
  from fold_compact_moved[OF lives_entries_ok[OF v] f]
  have "cur = sizeof_PageHeader + sum_list (map (snd \<circ> snd) ?es)" by (simp add: moved_def)
  then show ?thesis unfolding C by (simp add: sum_list_sort_key sum_lives)
qed

lemma sum_list_upt_upd:
  "i < n \<Longrightarrow> sum_list (map (f(i := v)) [0..<n]) + f i = sum_list (map f [0..<n]) + (v::nat)"
proof (induction n)
  case 0
  then show ?case by simp
next
  case (Suc n)
  show ?case
  proof (cases "i = n")
    case True
    have "sum_list (map (\<lambda>a. if a = n then v else f a) [0..<n]) = sum_list (map f [0..<n])"
      by (rule arg_cong[where f = sum_list]) simp
    with True show ?thesis by simp
  next
    case False
    with Suc show ?thesis by simp
  qed
qed

lemma Insert_after_tombstone_succeeds:
  assumes v: "valid_page ps pg" and ps: "ps \<le> 65536"
    and s: "slot < slot_count pg" and l: "len (dir pg slot) \<noteq> 0"
  shows "\<exists>s pg''. Insert ps (snd (Update ps pg slot (Some []))) [b] = (Inr s, pg'')"
proof -
  define pg' where "pg' = pg\<lparr> mem := mem_write (mem pg) (off (dir pg slot)) [],
                    dir := (dir pg)(slot := (dir pg slot)\<lparr> len := 0 \<rparr>) \<rparr>"
  have U: "snd (Update ps pg slot (Some [])) = pg'"
    using s l by (simp add: Update_def Let_def pg'_def)
  have v': "valid_page ps pg'"
    unfolding pg'_def by (rule valid_page_overwrite[OF v s]) simp
  have n': "slot_count pg' = slot_count pg" "free_size pg' = free_size pg" "free_off pg' = free_off pg"
    by (simp_all add: pg'_def)
  have "(\<lambda>i. len (dir pg' i)) = (\<lambda>i. len (dir pg i))(slot := 0)"
    by (rule ext) (simp add: pg'_def)
  then have "payload pg' + len (dir pg slot) = payload pg + 0"
    unfolding payload_def n' using sum_list_upt_upd[OF s, of "\<lambda>i. len (dir pg i)" 0]
    by simp
  with l have pl: "payload pg' < payload pg" by simp
  from Compact_compacted[OF v] have "free_off (Compact ps pg) \<le> free_off pg"
    by (simp add: compacted_def)
  with pl have fo: "free_off (Compact ps pg') < free_off pg"
    by (simp add: Compact_free_off[OF v] Compact_free_off[OF v'])
  from valid_page_Compact[OF v' ps] have
    "free_off (Compact ps pg') + free_size (Compact ps pg') + slot_count (Compact ps pg') * sizeof_Slot = ps"
    by (simp add: valid_page_def)
  moreover from v have "free_off pg + free_size pg + slot_count pg * sizeof_Slot = ps"
    by (simp add: valid_page_def)
  ultimately have fsC: "1 \<le> free_size (Compact ps pg')"
    using fo n' by (simp add: Compact_counts)
  have "find (\<lambda>i. len (dir pg' i) = 0) [0..<slot_count pg'] \<noteq> None"
    using s by (auto simp: find_None_iff pg'_def)
  then obtain i where f: "find (\<lambda>i. len (dir pg' i) = 0) [0..<slot_count pg'] = Some i" by auto
  show ?thesis
    unfolding U using f fsC by (auto simp: Insert_def Let_def)
qed


section \<open>Slotted page: the claims\<close>

text \<open>
  Claim C1 (amended). On a page of at least \<^verbatim>\<open>sizeof(PageHeader)\<close> = 32 and at most 65536
  bytes, initialised by \<^verbatim>\<open>InitNew\<close>, the header satisfies
  \<open>free_off + free_size + slot_count * sizeof(Slot) = page_size\<close> and
  \<open>free_off \<ge> sizeof(PageHeader)\<close> after every call of every sequence of \<^verbatim>\<open>Insert\<close>,
  \<^verbatim>\<open>Update\<close>, \<^verbatim>\<open>Erase\<close> and \<^verbatim>\<open>Compact\<close> calls (\<open>take k ops\<close> is the sequence up to its
  \<open>k\<close>-th call).
\<close>

theorem header_inv_after_every_call:
  assumes "sizeof_PageHeader \<le> page_size" and "page_size \<le> 65536"
  shows "header_inv page_size
           (fold (apply_page_op page_size) (take k ops) (InitNew pid page_size))"
  using valid_page_fold[OF valid_page_InitNew[OF assms] assms(2)]
  by (simp add: header_inv_def valid_page_def)

theorem header_inv_after_every_call_witness:
  "header_inv 64 (fold (apply_page_op 64)
       (take 4 [OpInsert [1, 2, 3], OpInsert [4, 5], OpErase 0, OpUpdate 1 (Some [6, 7, 8]), OpCompact])
       (InitNew 7 64))"
  by (rule header_inv_after_every_call) simp_all

text \<open>
  Claim C1 as stated fails for a page size that the 16-bit header fields cannot hold:
  with 131072-byte pages the equation is false right after \<^verbatim>\<open>InitNew\<close>, and still false
  after an \<^verbatim>\<open>Insert\<close>.
\<close>

theorem header_inv_fails_for_large_page:
  "\<not> header_inv 131072 (InitNew 0 131072) \<and>
   \<not> header_inv 131072 (snd (Insert 131072 (InitNew 0 131072) [1]))"
  by (simp add: header_inv_def InitNew_def Insert_def u16_def Let_def)

text \<open>
  Claim C2 as stated fails on a page whose live records overlap. On \<open>overlap_page\<close> the
  header equation holds and the slots 0, 1 and 2 are live; \<^verbatim>\<open>Compact\<close> keeps slot 0 in
  place, moves slot 1 from offset 34 to offset 40, over the record of slot 2, and then moves
  slot 2 from offset 40 to offset 42: slot 2 is still live, but \<^verbatim>\<open>Get(2)\<close> returns the
  bytes of slot 1 instead of its own.
\<close>

theorem Compact_overwrites_overlapping_record:
  "header_inv 64 overlap_page \<and>
   2 < slot_count overlap_page \<and> len (dir overlap_page 2) \<noteq> 0 \<and>
   Get 64 overlap_page 2 = Inr [0, 0] \<and>
   len (dir (Compact 64 overlap_page) 2) \<noteq> 0 \<and>
   Get 64 (Compact 64 overlap_page) 2 = Inr [7, 0]"
  by code_simp

text \<open>
  Claim C2 (amended). On a valid page (the header equation holds, \<open>free_off\<close> is a 16-bit
  value at or behind the header, every live record lies between the header and \<open>free_off\<close>,
  and no two live records overlap), a slot \<open>i\<close> that is live before \<^verbatim>\<open>Compact\<close> is live after
  it under the same slot id (the directory keeps its length and the slot its record
  length), and \<^verbatim>\<open>Get(i)\<close> returns the same bytes after the call as before. Every page of 32
  to 65536 bytes that \<^verbatim>\<open>InitNew\<close> initialised and \<^verbatim>\<open>Insert\<close>, \<^verbatim>\<open>Update\<close>, \<^verbatim>\<open>Erase\<close> and
  \<^verbatim>\<open>Compact\<close> calls changed is valid (lemma \<open>valid_page_fold\<close>).
\<close>

theorem Compact_preserves_live_slots:
  assumes "valid_page page_size pg" and "i < slot_count pg" and "len (dir pg i) \<noteq> 0"
  shows "slot_count (Compact page_size pg) = slot_count pg \<and>
         len (dir (Compact page_size pg) i) = len (dir pg i) \<and>
         Get page_size pg i = Inr (mem_read (mem pg) (off (dir pg i)) (len (dir pg i))) \<and>
         Get page_size (Compact page_size pg) i = Get page_size pg i"
proof -
  from assms have l: "live pg i" by (simp add: live_def)
  from Compact_compacted[OF assms(1)] have "slot_count (Compact page_size pg) = slot_count pg"
    "len (dir (Compact page_size pg) i) = len (dir pg i)"
    by (simp_all add: compacted_def)
  with Get_live[OF assms(1) l] Compact_Get[OF assms(1) l] show ?thesis by simp
qed

theorem Compact_preserves_live_slots_witness:
  "valid_page 64 example_page \<and> 1 < slot_count example_page \<and>
   len (dir example_page 1) \<noteq> 0 \<and>
   off (dir example_page 1) = 35 \<and> off (dir (Compact 64 example_page) 1) = 32 \<and>
   Get 64 example_page 1 = Inr [4, 5] \<and>
   Get 64 (Compact 64 example_page) 1 = Inr [4, 5]"
proof -
  have v: "valid_page 64 example_page"
    unfolding example_page_def example_page_full_def
    by (intro valid_page_Erase valid_page_fold valid_page_InitNew) simp_all
  have h: "1 < slot_count example_page" "len (dir example_page 1) \<noteq> 0"
    by code_simp+
  have o: "off (dir example_page 1) = 35" "off (dir (Compact 64 example_page) 1) = 32"
    by code_simp+
  have g: "Get 64 example_page 1 = Inr [4, 5]" by code_simp
  from Compact_preserves_live_slots[OF v h] g
  have "Get 64 (Compact 64 example_page) 1 = Inr [4, 5]" by simp
  with v h o g show ?thesis by simp
qed



text \<open>
  Claim C10 as stated fails for a null \<^verbatim>\<open>rec\<close>: \<^verbatim>\<open>Update(1, nullptr, 0)\<close> on a page whose
  slot 1 is live returns \<^verbatim>\<open>InvalidArgument\<close>, not \<^verbatim>\<open>Ok\<close>, and leaves the page as it was, so
  that \<^verbatim>\<open>Get(1)\<close> still returns the record. The null test is the first statement of
  \<^verbatim>\<open>Update\<close> and comes before any look at \<^verbatim>\<open>len\<close>.
\<close>

theorem Update_rejects_null_record:
  "1 < slot_count example_page_full \<and> len (dir example_page_full 1) \<noteq> 0 \<and>
   Update 64 example_page_full 1 None = (kInvalidArgument, example_page_full) \<and>
   Get 64 (snd (Update 64 example_page_full 1 None)) 1 = Inr [4, 5]"
proof -
  have h: "1 < slot_count example_page_full" "len (dir example_page_full 1) \<noteq> 0"
    by code_simp+
  have g: "Get 64 example_page_full 1 = Inr [4, 5]" by code_simp
  have u: "Update 64 example_page_full 1 None = (kInvalidArgument, example_page_full)"
    by (simp add: Update_def)
  from h g u show ?thesis by simp
qed

text \<open>
  Claim C10 (amended). \<^verbatim>\<open>Update\<close> with a non-null \<^verbatim>\<open>rec\<close> and \<open>len = 0\<close> on a live slot
  returns \<^verbatim>\<open>Ok\<close> and leaves the slot a tombstone: \<^verbatim>\<open>Get\<close> on it returns \<^verbatim>\<open>NotFound\<close>; an
  \<^verbatim>\<open>Insert\<close> that follows and succeeds returns that slot id or a lower tombstone, and that
  slot id when no lower slot is a tombstone; on a valid page of at most 65536 bytes the
  \<^verbatim>\<open>Insert\<close> of a one-byte record does succeed. \<^verbatim>\<open>Insert\<close> itself rejects a zero-length
  record with \<^verbatim>\<open>InvalidArgument\<close>, and \<^verbatim>\<open>Update\<close> rejects a null \<^verbatim>\<open>rec\<close> with
  \<^verbatim>\<open>InvalidArgument\<close>, both without touching the page.
\<close>

theorem Update_zero_length_tombstones:
  assumes s: "slot < slot_count pg" and l: "len (dir pg slot) \<noteq> 0"
  shows "fst (Update page_size pg slot (Some [])) = kOk \<and>
         Get page_size (snd (Update page_size pg slot (Some []))) slot = Inl kNotFound \<and>
         (\<forall>rec s pg''. Insert page_size (snd (Update page_size pg slot (Some []))) rec = (Inr s, pg'') \<longrightarrow>
            s \<le> slot \<and> ((\<forall>j < slot. len (dir pg j) \<noteq> 0) \<longrightarrow> s = slot)) \<and>
         (valid_page page_size pg \<and> page_size \<le> 65536 \<longrightarrow>
            (\<exists>s pg''. Insert page_size (snd (Update page_size pg slot (Some []))) [b] = (Inr s, pg''))) \<and>
         Insert page_size pg0 [] = (Inl kInvalidArgument, pg0) \<and>
         Update page_size pg0 slot0 None = (kInvalidArgument, pg0)"
proof -
  define pg' where "pg' = pg\<lparr> mem := mem_write (mem pg) (off (dir pg slot)) [],
                    dir := (dir pg)(slot := (dir pg slot)\<lparr> len := 0 \<rparr>) \<rparr>"
  have U: "Update page_size pg slot (Some []) = (kOk, pg')"
    using s l by (simp add: Update_def Let_def pg'_def)
  have G: "Get page_size pg' slot = Inl kNotFound"
    using s by (simp add: Get_def pg'_def Let_def)
  have I: "s' \<le> slot \<and> ((\<forall>j < slot. len (dir pg j) \<noteq> 0) \<longrightarrow> s' = slot)"
    if ins: "Insert page_size pg' rec = (Inr s', pg'')" for rec s' pg''
  proof -
    have "find (\<lambda>i. len (dir pg' i) = 0) [0..<slot_count pg'] \<noteq> None"
      using s by (auto simp: find_None_iff pg'_def)
    then obtain i where f: "find (\<lambda>i. len (dir pg' i) = 0) [0..<slot_count pg'] = Some i" by auto
    from find_free_Some[OF f] have i: "i < slot_count pg'" "len (dir pg' i) = 0"
      "\<forall>j < i. len (dir pg' j) \<noteq> 0" by simp_all
    from ins f have "s' = i" by (auto simp: Insert_def Let_def split: if_splits)
    moreover have "i \<le> slot"
    proof (rule ccontr)
      assume "\<not> i \<le> slot"
      with i(3) have "len (dir pg' slot) \<noteq> 0" by simp
      then show False by (simp add: pg'_def)
    qed
    moreover have "(\<forall>j < slot. len (dir pg j) \<noteq> 0) \<longrightarrow> i = slot"
    proof
      assume a: "\<forall>j < slot. len (dir pg j) \<noteq> 0"
      show "i = slot"
      proof (rule ccontr)
        assume "i \<noteq> slot"
        with \<open>i \<le> slot\<close> have "i < slot" by simp
        with a i(2) show False by (auto simp: pg'_def)
      qed
    qed
    ultimately show ?thesis by simp
  qed
  have E: "valid_page page_size pg \<and> page_size \<le> 65536 \<longrightarrow>
            (\<exists>s pg''. Insert page_size pg' [b] = (Inr s, pg''))"
    using Insert_after_tombstone_succeeds[OF _ _ s l, of page_size b] U by auto
  have Z: "Insert page_size pg0 [] = (Inl kInvalidArgument, pg0)" by (simp add: Insert_def)
  have N: "Update page_size pg0 slot0 None = (kInvalidArgument, pg0)" by (simp add: Update_def)
  show ?thesis unfolding U using G I E Z N by simp
qed

theorem Update_zero_length_tombstones_witness:
  "1 < slot_count example_page_full \<and> len (dir example_page_full 1) \<noteq> 0 \<and>
   Get 64 example_page_full 1 = Inr [4, 5] \<and>
   fst (Update 64 example_page_full 1 (Some [])) = kOk \<and>
   Get 64 (snd (Update 64 example_page_full 1 (Some []))) 1 = Inl kNotFound \<and>
   fst (Insert 64 (snd (Update 64 example_page_full 1 (Some []))) [9]) = Inr 1"
proof -
  have h: "1 < slot_count example_page_full" "len (dir example_page_full 1) \<noteq> 0"
    by code_simp+
  have g: "Get 64 example_page_full 1 = Inr [4, 5]" by code_simp
  have i: "fst (Insert 64 (snd (Update 64 example_page_full 1 (Some []))) [9]) = Inr 1"
    by code_simp
  from Update_zero_length_tombstones[OF h, of 64] h g i show ?thesis by simp
qed


section \<open>Free space manager (free\_space\_manager.h, free\_space\_manager.cc)\<close>

text \<open>
  A \<^verbatim>\<open>std::unordered_set<page_id_t>\<close> is a list without duplicates; the order of the list
  is the iteration order, which the C++ standard leaves open. No theorem below depends on
  it. \<^verbatim>\<open>emplace\<close> on a map inserts only when the key is absent.
\<close>

definition uset_insert :: "nat \<Rightarrow> nat list \<Rightarrow> nat list" where
  "uset_insert x xs = (if x \<in> set xs then xs else x # xs)"

definition uset_erase :: "nat \<Rightarrow> nat list \<Rightarrow> nat list" where
  "uset_erase x xs = removeAll x xs"

definition map_emplace :: "('k \<rightharpoonup> 'v) \<Rightarrow> 'k \<Rightarrow> 'v \<Rightarrow> ('k \<rightharpoonup> 'v)" where
  "map_emplace m k v = (case m k of None \<Rightarrow> m(k \<mapsto> v) | Some _ \<Rightarrow> m)"

record FreeSpaceManager =
  fsm_page_size :: nat
  thresholds :: "nat list"
  bins :: "nat list list"
  pid2bin :: "nat \<rightharpoonup> nat"
  pid2free :: "nat \<rightharpoonup> nat"
  probe_free :: "(nat \<Rightarrow> nat \<Rightarrow> nat) option"
  probe_count :: "(nat \<Rightarrow> nat) option"

text \<open>
  The constructor: \<^verbatim>\<open>std::sort\<close>, then \<^verbatim>\<open>std::unique\<close> (which drops adjacent duplicates),
  then one bin more than there are thresholds.
\<close>

definition FreeSpaceManager_new :: "nat \<Rightarrow> nat list \<Rightarrow> FreeSpaceManager" where
  "FreeSpaceManager_new page_size ths0 =
     (let ths = remdups_adj (sort ths0)
      in \<lparr> fsm_page_size = page_size, thresholds = ths,
           bins = replicate (length ths + 1) [],
           pid2bin = Map.empty, pid2free = Map.empty,
           probe_free = None, probe_count = None \<rparr>)"

text \<open>
  \<^verbatim>\<open>BinIndex\<close>: \<^verbatim>\<open>std::lower_bound\<close> over the sorted thresholds returns the position of
  the first threshold that is not less than \<open>free_bytes\<close>, which is the number of leading
  thresholds below \<open>free_bytes\<close>.
\<close>

definition BinIndex :: "FreeSpaceManager \<Rightarrow> nat \<Rightarrow> nat" where
  "BinIndex fsm free_bytes = length (takeWhile (\<lambda>t. t < free_bytes) (thresholds fsm))"

text \<open>
  \<^verbatim>\<open>Find\<close>: the two nested loops return the first page id, in bin order from
  \<open>BinIndex need_bytes\<close> on and in iteration order inside a bin, whose recorded free bytes
  reach \<open>need_bytes\<close>.
\<close>

definition Find :: "FreeSpaceManager \<Rightarrow> nat \<Rightarrow> nat" where
  "Find fsm need_bytes =
     (case find (\<lambda>pid. case pid2free fsm pid of Some f \<Rightarrow> f \<ge> need_bytes | None \<Rightarrow> False)
                (concat (drop (BinIndex fsm need_bytes) (bins fsm))) of
        Some pid \<Rightarrow> pid
      | None \<Rightarrow> kInvalidPageId)"

definition FsmUpdate :: "FreeSpaceManager \<Rightarrow> nat \<Rightarrow> nat \<Rightarrow> FreeSpaceManager" where
  "FsmUpdate fsm pid free_bytes =
     (let new_bin = BinIndex fsm free_bytes in
      case pid2bin fsm pid of
        Some old_bin \<Rightarrow>
          (if old_bin \<noteq> new_bin then
             (let bins1 = (bins fsm)[old_bin := uset_erase pid (bins fsm ! old_bin)];
                  bins2 = bins1[new_bin := uset_insert pid (bins1 ! new_bin)]
              in fsm\<lparr> bins := bins2, pid2bin := (pid2bin fsm)(pid \<mapsto> new_bin),
                       pid2free := (pid2free fsm)(pid \<mapsto> free_bytes) \<rparr>)
           else fsm\<lparr> pid2free := (pid2free fsm)(pid \<mapsto> free_bytes) \<rparr>)
      | None \<Rightarrow>
          fsm\<lparr> bins := (bins fsm)[new_bin := uset_insert pid (bins fsm ! new_bin)],
                pid2bin := map_emplace (pid2bin fsm) pid new_bin,
                pid2free := map_emplace (pid2free fsm) pid free_bytes \<rparr>)"

definition FsmRemove :: "FreeSpaceManager \<Rightarrow> nat \<Rightarrow> FreeSpaceManager" where
  "FsmRemove fsm pid =
     (case pid2bin fsm pid of
        None \<Rightarrow> fsm
      | Some bin \<Rightarrow>
          fsm\<lparr> bins := (bins fsm)[bin := uset_erase pid (bins fsm ! bin)],
                pid2bin := (pid2bin fsm)(pid := None),
                pid2free := (pid2free fsm)(pid := None) \<rparr>)"

definition RegisterSegmentProbe ::
  "FreeSpaceManager \<Rightarrow> (nat \<Rightarrow> nat \<Rightarrow> nat) \<Rightarrow> (nat \<Rightarrow> nat) \<Rightarrow> FreeSpaceManager" where
  "RegisterSegmentProbe fsm free_probe page_count =
     fsm\<lparr> probe_free := Some free_probe, probe_count := Some page_count \<rparr>"

text \<open>
  One round of the loop of \<^verbatim>\<open>RebuildFromSegment\<close>; \<open>i\<close> is the 64-bit counter and the page
  id its conversion to \<^verbatim>\<open>page_id_t\<close>. The probe's result is a \<^verbatim>\<open>uint16_t\<close>.
\<close>

definition rebuild_step ::
  "(nat \<Rightarrow> nat \<Rightarrow> nat) \<Rightarrow> nat \<Rightarrow> nat \<Rightarrow> FreeSpaceManager \<Rightarrow> FreeSpaceManager" where
  "rebuild_step free_probe seg i fsm =
     (let pid = i mod 4294967296;
          free = free_probe seg pid mod 65536;
          b = BinIndex fsm free
      in fsm\<lparr> bins := (bins fsm)[b := uset_insert pid (bins fsm ! b)],
               pid2bin := map_emplace (pid2bin fsm) pid b,
               pid2free := map_emplace (pid2free fsm) pid free \<rparr>)"

definition RebuildFromSegment :: "FreeSpaceManager \<Rightarrow> nat \<Rightarrow> StatusCode \<times> FreeSpaceManager" where
  "RebuildFromSegment fsm seg =
     (case (probe_free fsm, probe_count fsm) of
        (Some free_probe, Some page_count) \<Rightarrow>
          (let fsm0 = fsm\<lparr> bins := map (\<lambda>_. []) (bins fsm),
                            pid2bin := Map.empty, pid2free := Map.empty \<rparr>
           in (kOk, fold (rebuild_step free_probe seg) [0..<page_count seg] fsm0))
      | _ \<Rightarrow> (kUnavailable, fsm))"

text \<open>The calls that change a free space manager, and a run of them.\<close>

datatype fsm_op =
    FUpdate nat nat
  | FRemove nat
  | FRegister "nat \<Rightarrow> nat \<Rightarrow> nat" "nat \<Rightarrow> nat"
  | FRebuild nat

fun apply_fsm_op :: "fsm_op \<Rightarrow> FreeSpaceManager \<Rightarrow> FreeSpaceManager" where
  "apply_fsm_op (FUpdate pid free_bytes) fsm = FsmUpdate fsm pid free_bytes"
| "apply_fsm_op (FRemove pid) fsm = FsmRemove fsm pid"
| "apply_fsm_op (FRegister free_probe page_count) fsm = RegisterSegmentProbe fsm free_probe page_count"
| "apply_fsm_op (FRebuild seg) fsm = snd (RebuildFromSegment fsm seg)"

text \<open>
  The bookkeeping invariant: there is one bin more than thresholds, a page with a bin is
  a member of that bin, has recorded free bytes, and its bin is the bin index of those
  bytes; a page with recorded free bytes has a bin.
\<close>

definition fsm_inv :: "FreeSpaceManager \<Rightarrow> bool" where
  "fsm_inv fsm \<longleftrightarrow>
     length (bins fsm) = length (thresholds fsm) + 1 \<and>
     (\<forall>pid b. pid2bin fsm pid = Some b \<longrightarrow>
        pid \<in> set (bins fsm ! b) \<and>
        (\<exists>f. pid2free fsm pid = Some f \<and> b = BinIndex fsm f)) \<and>
     (\<forall>pid f. pid2free fsm pid = Some f \<longrightarrow> pid2bin fsm pid \<noteq> None)"

text \<open>During a rebuild every recorded value is the probe's answer for its page.\<close>

definition probed :: "(nat \<Rightarrow> nat \<Rightarrow> nat) \<Rightarrow> nat \<Rightarrow> FreeSpaceManager \<Rightarrow> bool" where
  "probed free_probe seg fsm \<longleftrightarrow>
     (\<forall>pid f. pid2free fsm pid = Some f \<longrightarrow> f = free_probe seg pid mod 65536)"

text \<open>A small manager with the default thresholds, used as a concrete instance.\<close>

definition example_fsm :: FreeSpaceManager where
  "example_fsm =
     fold apply_fsm_op [FUpdate 3 100, FUpdate 5 3000, FUpdate 3 600, FRemove 5, FUpdate 8 4000]
       (FreeSpaceManager_new 8192 [128, 512, 1024, 2048, 4096, 8192])"

subsection \<open>The bookkeeping invariant is kept\<close>

lemma BinIndex_le: "BinIndex fsm f \<le> length (thresholds fsm)"
  by (simp add: BinIndex_def length_takeWhile_le)

lemma takeWhile_mono_length:
  assumes "\<And>x. P x \<Longrightarrow> Q x"
  shows "length (takeWhile P xs) \<le> length (takeWhile Q xs)"
  using assms by (induction xs) auto

lemma BinIndex_mono: "a \<le> b \<Longrightarrow> BinIndex fsm a \<le> BinIndex fsm b"
  unfolding BinIndex_def by (rule takeWhile_mono_length) simp

lemma BinIndex_cong: "thresholds fsm' = thresholds fsm \<Longrightarrow> BinIndex fsm' f = BinIndex fsm f"
  by (simp add: BinIndex_def)

lemma fsm_inv_new: "fsm_inv (FreeSpaceManager_new ps ths)"
  by (simp add: fsm_inv_def FreeSpaceManager_new_def Let_def)

lemma set_uset_insert [simp]: "set (uset_insert x xs) = insert x (set xs)"
  by (auto simp: uset_insert_def)

lemma set_uset_erase [simp]: "set (uset_erase x xs) = set xs - {x}"
  by (auto simp: uset_erase_def)

lemma mem_bins_erase:
  "b < length bs \<Longrightarrow> p \<noteq> pid \<Longrightarrow> p \<in> set (bs ! b) \<Longrightarrow>
   p \<in> set (bs[k := uset_erase pid (bs ! k)] ! b)"
  by (cases "k = b") simp_all

lemma mem_bins_insert:
  "b < length bs \<Longrightarrow> p \<in> set (bs ! b) \<Longrightarrow> p \<in> set (bs[k := uset_insert pid (bs ! k)] ! b)"
  by (cases "k = b") simp_all

lemma mem_bins_insert_new:
  "k < length bs \<Longrightarrow> pid \<in> set (bs[k := uset_insert pid (bs ! k)] ! k)"
  by simp

lemma fsm_invD:
  assumes "fsm_inv fsm"
  shows "length (bins fsm) = length (thresholds fsm) + 1"
    and "pid2bin fsm p = Some b \<Longrightarrow> p \<in> set (bins fsm ! b)"
    and "pid2bin fsm p = Some b \<Longrightarrow> \<exists>f. pid2free fsm p = Some f \<and> b = BinIndex fsm f"
    and "pid2bin fsm p = Some b \<Longrightarrow> b < length (bins fsm)"
    and "pid2free fsm p = Some f \<Longrightarrow> pid2bin fsm p \<noteq> None"
proof -
  from assms show len: "length (bins fsm) = length (thresholds fsm) + 1"
    by (simp add: fsm_inv_def)
  from assms show "pid2bin fsm p = Some b \<Longrightarrow> p \<in> set (bins fsm ! b)"
    by (simp add: fsm_inv_def)
  from assms show e: "pid2bin fsm p = Some b \<Longrightarrow> \<exists>f. pid2free fsm p = Some f \<and> b = BinIndex fsm f"
    by (simp add: fsm_inv_def)
  show "pid2bin fsm p = Some b \<Longrightarrow> b < length (bins fsm)"
    using e len BinIndex_le[of fsm] by (fastforce simp: less_Suc_eq_le)
  from assms show "pid2free fsm p = Some f \<Longrightarrow> pid2bin fsm p \<noteq> None"
    unfolding fsm_inv_def by blast
qed

lemma fsm_invI:
  assumes "length (bins fsm) = length (thresholds fsm) + 1"
    and "\<And>p b. pid2bin fsm p = Some b \<Longrightarrow> p \<in> set (bins fsm ! b)"
    and "\<And>p b. pid2bin fsm p = Some b \<Longrightarrow> \<exists>f. pid2free fsm p = Some f \<and> b = BinIndex fsm f"
    and "\<And>p f. pid2free fsm p = Some f \<Longrightarrow> pid2bin fsm p \<noteq> None"
  shows "fsm_inv fsm"
  unfolding fsm_inv_def using assms by blast

lemma fsm_inv_Remove:
  assumes inv: "fsm_inv fsm"
  shows "fsm_inv (FsmRemove fsm pid)"
proof (cases "pid2bin fsm pid")
  case None
  with inv show ?thesis by (simp add: FsmRemove_def)
next
  case (Some bin)
  let ?fsm' = "fsm\<lparr> bins := (bins fsm)[bin := uset_erase pid (bins fsm ! bin)],
                pid2bin := (pid2bin fsm)(pid := None),
                pid2free := (pid2free fsm)(pid := None) \<rparr>"
  have "fsm_inv ?fsm'"
  proof (rule fsm_invI)
    show "length (bins ?fsm') = length (thresholds ?fsm') + 1"
      using fsm_invD(1)[OF inv] by simp
  next
    fix p b assume "pid2bin ?fsm' p = Some b"
    then have pb: "p \<noteq> pid" "pid2bin fsm p = Some b" by (auto split: if_splits)
    from mem_bins_erase[OF fsm_invD(4)[OF inv pb(2)] pb(1) fsm_invD(2)[OF inv pb(2)]]
    show "p \<in> set (bins ?fsm' ! b)" by simp
    from fsm_invD(3)[OF inv pb(2)] pb(1)
    show "\<exists>f. pid2free ?fsm' p = Some f \<and> b = BinIndex ?fsm' f"
      by (simp add: BinIndex_def)
  next
    fix p f assume "pid2free ?fsm' p = Some f"
    then have "p \<noteq> pid" "pid2free fsm p = Some f" by (auto split: if_splits)
    with fsm_invD(5)[OF inv] show "pid2bin ?fsm' p \<noteq> None" by simp
  qed
  then show ?thesis by (simp add: FsmRemove_def Some)
qed

lemma fsm_inv_Update:
  assumes inv: "fsm_inv fsm"
  shows "fsm_inv (FsmUpdate fsm pid free_bytes)"
proof -
  let ?new = "BinIndex fsm free_bytes"
  have nl: "?new < length (bins fsm)"
    using fsm_invD(1)[OF inv] BinIndex_le[of fsm free_bytes] by simp
  show ?thesis
  proof (cases "pid2bin fsm pid")
    case None
    then have nf: "pid2free fsm pid = None"
      using fsm_invD(5)[OF inv, of pid] by (cases "pid2free fsm pid") auto
    let ?fsm' = "fsm\<lparr> bins := (bins fsm)[?new := uset_insert pid (bins fsm ! ?new)],
                pid2bin := (pid2bin fsm)(pid \<mapsto> ?new),
                pid2free := (pid2free fsm)(pid \<mapsto> free_bytes) \<rparr>"
    have "fsm_inv ?fsm'"
    proof (rule fsm_invI)
      show "length (bins ?fsm') = length (thresholds ?fsm') + 1"
        using fsm_invD(1)[OF inv] by simp
    next
      fix p b assume a: "pid2bin ?fsm' p = Some b"
      show "p \<in> set (bins ?fsm' ! b)"
      proof (cases "p = pid")
        case True
        with a nl show ?thesis by simp
      next
        case False
        with a have pb: "pid2bin fsm p = Some b" by simp
        from mem_bins_insert[OF fsm_invD(4)[OF inv pb] fsm_invD(2)[OF inv pb]]
        show ?thesis by simp
      qed
      show "\<exists>f. pid2free ?fsm' p = Some f \<and> b = BinIndex ?fsm' f"
      proof (cases "p = pid")
        case True
        with a show ?thesis by (simp add: BinIndex_def)
      next
        case False
        with a have pb: "pid2bin fsm p = Some b" by simp
        from fsm_invD(3)[OF inv pb] False show ?thesis by (simp add: BinIndex_def)
      qed
    next
      fix p f assume "pid2free ?fsm' p = Some f"
      then show "pid2bin ?fsm' p \<noteq> None"
        using fsm_invD(5)[OF inv, of p f] by (auto split: if_splits)
    qed
    then show ?thesis
      by (simp add: FsmUpdate_def Let_def None nf map_emplace_def)
  next
    case (Some old)
    have ol: "old < length (bins fsm)" by (rule fsm_invD(4)[OF inv Some])
    show ?thesis
    proof (cases "old = ?new")
      case True
      let ?fsm' = "fsm\<lparr> pid2free := (pid2free fsm)(pid \<mapsto> free_bytes) \<rparr>"
      have "fsm_inv ?fsm'"
      proof (rule fsm_invI)
        show "length (bins ?fsm') = length (thresholds ?fsm') + 1"
          using fsm_invD(1)[OF inv] by simp
      next
        fix p b assume a: "pid2bin ?fsm' p = Some b"
        then show "p \<in> set (bins ?fsm' ! b)" using fsm_invD(2)[OF inv, of p b] by simp
        show "\<exists>f. pid2free ?fsm' p = Some f \<and> b = BinIndex ?fsm' f"
          using a fsm_invD(3)[OF inv, of p b] Some True by (auto simp: BinIndex_def)
      next
        fix p f assume "pid2free ?fsm' p = Some f"
        then show "pid2bin ?fsm' p \<noteq> None"
          using fsm_invD(5)[OF inv, of p f] Some by (auto split: if_splits)
      qed
      then show ?thesis by (simp add: FsmUpdate_def Let_def Some True)
    next
      case False
      let ?b1 = "(bins fsm)[old := uset_erase pid (bins fsm ! old)]"
      let ?fsm' = "fsm\<lparr> bins := ?b1[?new := uset_insert pid (?b1 ! ?new)],
                       pid2bin := (pid2bin fsm)(pid \<mapsto> ?new),
                       pid2free := (pid2free fsm)(pid \<mapsto> free_bytes) \<rparr>"
      have "fsm_inv ?fsm'"
      proof (rule fsm_invI)
        show "length (bins ?fsm') = length (thresholds ?fsm') + 1"
          using fsm_invD(1)[OF inv] by simp
      next
        fix p b assume a: "pid2bin ?fsm' p = Some b"
        show "p \<in> set (bins ?fsm' ! b)"
        proof (cases "p = pid")
          case True
          with a nl show ?thesis by simp
        next
          case np: False
          with a have pb: "pid2bin fsm p = Some b" by simp
          have bl: "b < length ?b1" using fsm_invD(4)[OF inv pb] by simp
          from mem_bins_erase[OF fsm_invD(4)[OF inv pb] np fsm_invD(2)[OF inv pb]]
          have "p \<in> set (?b1 ! b)" .
          from mem_bins_insert[OF bl this] show ?thesis by simp
        qed
        show "\<exists>f. pid2free ?fsm' p = Some f \<and> b = BinIndex ?fsm' f"
        proof (cases "p = pid")
          case True
          with a show ?thesis by (simp add: BinIndex_def)
        next
          case np: False
          with a have pb: "pid2bin fsm p = Some b" by simp
          from fsm_invD(3)[OF inv pb] np show ?thesis by (simp add: BinIndex_def)
        qed
      next
        fix p f assume "pid2free ?fsm' p = Some f"
        then show "pid2bin ?fsm' p \<noteq> None"
          using fsm_invD(5)[OF inv, of p f] by (auto split: if_splits)
      qed
      then show ?thesis by (simp add: FsmUpdate_def Let_def Some False)
    qed
  qed
qed

lemma rebuild_step_inv:
  assumes inv: "fsm_inv fsm" and pr: "probed fp seg fsm"
  shows "fsm_inv (rebuild_step fp seg i fsm) \<and> probed fp seg (rebuild_step fp seg i fsm)"
proof -
  define pid where "pid = i mod 4294967296"
  define free where "free = fp seg pid mod 65536"
  let ?b = "BinIndex fsm free"
  have nl: "?b < length (bins fsm)"
    using fsm_invD(1)[OF inv] BinIndex_le[of fsm free] by simp
  show ?thesis
  proof (cases "pid2bin fsm pid")
    case None
    then have nf: "pid2free fsm pid = None"
      using fsm_invD(5)[OF inv, of pid] by (cases "pid2free fsm pid") auto
    have U: "rebuild_step fp seg i fsm = FsmUpdate fsm pid free"
      using None by (simp add: rebuild_step_def FsmUpdate_def Let_def pid_def free_def)
    have "probed fp seg (FsmUpdate fsm pid free)"
      using pr by (auto simp: probed_def FsmUpdate_def Let_def None nf map_emplace_def free_def)
    with fsm_inv_Update[OF inv, of pid free] U show ?thesis by simp
  next
    case (Some b0)
    from fsm_invD(3)[OF inv Some] obtain f0 where f0: "pid2free fsm pid = Some f0" "b0 = BinIndex fsm f0"
      by auto
    from pr f0 have "f0 = free" by (simp add: probed_def free_def)
    with f0 have b0: "b0 = ?b" by simp
    from fsm_invD(2)[OF inv Some] b0 have "pid \<in> set (bins fsm ! ?b)" by simp
    then have "(bins fsm)[?b := uset_insert pid (bins fsm ! ?b)] = bins fsm"
      by (simp add: uset_insert_def)
    then have "rebuild_step fp seg i fsm = fsm"
      using Some f0 by (simp add: rebuild_step_def Let_def map_emplace_def pid_def[symmetric] free_def[symmetric])
    with inv pr show ?thesis by simp
  qed
qed

lemma rebuild_fold_inv:
  assumes "fsm_inv fsm" and "probed fp seg fsm"
  shows "fsm_inv (fold (rebuild_step fp seg) is fsm) \<and> probed fp seg (fold (rebuild_step fp seg) is fsm)"
  using assms
proof (induction "is" arbitrary: fsm)
  case Nil
  then show ?case by simp
next
  case (Cons i "is")
  from rebuild_step_inv[OF Cons.prems] Cons.IH show ?case by simp
qed

lemma fsm_inv_Rebuild:
  assumes inv: "fsm_inv fsm"
  shows "fsm_inv (snd (RebuildFromSegment fsm seg))"
proof (cases "probe_free fsm")
  case None
  with inv show ?thesis by (simp add: RebuildFromSegment_def)
next
  case (Some fp)
  show ?thesis
  proof (cases "probe_count fsm")
    case None
    with inv Some show ?thesis by (simp add: RebuildFromSegment_def)
  next
    case pc: (Some pc)
    let ?fsm0 = "fsm\<lparr> bins := map (\<lambda>_. []) (bins fsm),
                            pid2bin := Map.empty, pid2free := Map.empty \<rparr>"
    have "fsm_inv ?fsm0" using fsm_invD(1)[OF inv] by (simp add: fsm_inv_def)
    moreover have "probed fp seg ?fsm0" by (simp add: probed_def)
    ultimately have "fsm_inv (fold (rebuild_step fp seg) [0..<pc seg] ?fsm0)"
      using rebuild_fold_inv by blast
    then show ?thesis by (simp add: RebuildFromSegment_def Some pc Let_def)
  qed
qed

lemma fsm_inv_apply: "fsm_inv fsm \<Longrightarrow> fsm_inv (apply_fsm_op op fsm)"
  by (cases op) (simp_all add: fsm_inv_Update fsm_inv_Remove fsm_inv_Rebuild,
                 simp add: fsm_inv_def RegisterSegmentProbe_def BinIndex_def)

lemma fsm_inv_fold: "fsm_inv fsm \<Longrightarrow> fsm_inv (fold apply_fsm_op ops fsm)"
  by (induction ops arbitrary: fsm) (simp_all add: fsm_inv_apply)

lemma Find_sound:
  assumes "Find fsm n \<noteq> kInvalidPageId"
  shows "\<exists>f. pid2free fsm (Find fsm n) = Some f \<and> n \<le> f"
proof -
  let ?P = "\<lambda>pid. case pid2free fsm pid of Some f \<Rightarrow> f \<ge> n | None \<Rightarrow> False"
  let ?xs = "concat (drop (BinIndex fsm n) (bins fsm))"
  from assms obtain pid where f: "find ?P ?xs = Some pid"
    by (cases "find ?P ?xs") (auto simp: Find_def)
  then have "?P pid" by (auto simp: find_Some_iff)
  moreover from f have "Find fsm n = pid" by (simp add: Find_def)
  ultimately show ?thesis by (auto split: option.splits)
qed

lemma Find_complete:
  assumes inv: "fsm_inv fsm" and t: "pid2free fsm pid = Some f" and nf: "n \<le> f"
  shows "\<exists>f'. pid2free fsm (Find fsm n) = Some f' \<and> n \<le> f'"
proof -
  let ?P = "\<lambda>pid. case pid2free fsm pid of Some f \<Rightarrow> f \<ge> n | None \<Rightarrow> False"
  let ?s = "BinIndex fsm n"
  let ?xs = "concat (drop ?s (bins fsm))"
  from fsm_invD(5)[OF inv t] obtain b where b: "pid2bin fsm pid = Some b" by auto
  from fsm_invD(3)[OF inv b] t have bf: "b = BinIndex fsm f" by simp
  with nf have sb: "?s \<le> b" by (simp add: BinIndex_mono)
  have bl: "b < length (bins fsm)" by (rule fsm_invD(4)[OF inv b])
  have "bins fsm ! b \<in> set (drop ?s (bins fsm))"
    using sb bl by (auto simp: in_set_conv_nth intro!: exI[of _ "b - ?s"])
  with fsm_invD(2)[OF inv b] have "pid \<in> set ?xs" by auto
  moreover have "?P pid" using t nf by simp
  ultimately have "find ?P ?xs \<noteq> None" by (auto simp: find_None_iff)
  then obtain q where q: "find ?P ?xs = Some q" by auto
  then have "?P q" by (auto simp: find_Some_iff)
  moreover from q have "Find fsm n = q" by (simp add: Find_def)
  ultimately show ?thesis by (auto split: option.splits)
qed

lemma length_takeWhile_eq_iff:
  "length (takeWhile P xs) = i \<longleftrightarrow>
     i \<le> length xs \<and> (\<forall>j<i. P (xs ! j)) \<and> (i < length xs \<longrightarrow> \<not> P (xs ! i))"
proof (induction xs arbitrary: i)
  case Nil
  then show ?case by auto
next
  case (Cons x xs)
  show ?case
  proof (cases i)
    case 0
    then show ?thesis by auto
  next
    case (Suc k)
    show ?thesis
    proof (cases "P x")
      case True
      with Suc Cons.IH[of k] show ?thesis
        by (auto simp: less_Suc_eq_0_disj)
    next
      case False
      with Suc show ?thesis by auto
    qed
  qed
qed

lemma BinIndex_eq_iff:
  "BinIndex fsm f = i \<longleftrightarrow>
     i \<le> length (thresholds fsm) \<and> (\<forall>j<i. thresholds fsm ! j < f) \<and>
     (i < length (thresholds fsm) \<longrightarrow> f \<le> thresholds fsm ! i)"
  unfolding BinIndex_def length_takeWhile_eq_iff by (simp add: not_less)

lemma FsmUpdate_bin:
  assumes "fsm_inv fsm"
  shows "pid2bin (FsmUpdate fsm pid f) pid = Some (BinIndex fsm f) \<and>
         pid2free (FsmUpdate fsm pid f) pid = Some f \<and>
         pid \<in> set (bins (FsmUpdate fsm pid f) ! BinIndex fsm f)"
proof -
  have t: "thresholds (FsmUpdate fsm pid f) = thresholds fsm"
    by (simp add: FsmUpdate_def Let_def map_emplace_def split: option.splits)
  have a: "pid2bin (FsmUpdate fsm pid f) pid = Some (BinIndex fsm f)"
    using fsm_invD(5)[OF assms, of pid]
    by (auto simp: FsmUpdate_def Let_def map_emplace_def split: option.splits)
  have b: "pid2free (FsmUpdate fsm pid f) pid = Some f"
    using fsm_invD(5)[OF assms, of pid]
    by (auto simp: FsmUpdate_def Let_def map_emplace_def split: option.splits)
  from fsm_invD(2)[OF fsm_inv_Update[OF assms] a] a b show ?thesis by simp
qed

subsection \<open>Free space manager: the claims\<close>

text \<open>
  Claim C4. The header file documents bin \<open>i\<close> as the half-open interval
  \<open>[t_{i-1}, t_i)\<close>, which puts a free size equal to the smallest threshold into bin 1.
  \<^verbatim>\<open>BinIndex\<close> uses \<^verbatim>\<open>std::lower_bound\<close> and so counts the thresholds strictly below the
  free size (\<open>BinIndex_eq_iff\<close>: bin \<open>i\<close> holds the sizes in \<open>(t_{i-1}, t_i]\<close>). With
  the default thresholds, \<^verbatim>\<open>Update(7, 128)\<close> records page 7 in bin 0 and leaves bin 1 empty.
\<close>

theorem Update_at_smallest_threshold_uses_bin_0:
  "let fsm = FsmUpdate (FreeSpaceManager_new 8192 [128, 512, 1024, 2048, 4096, 8192]) 7 128
   in thresholds fsm = [128, 512, 1024, 2048, 4096, 8192] \<and> BinIndex fsm 128 = 0 \<and>
      pid2bin fsm 7 = Some 0 \<and> pid2free fsm 7 = Some 128 \<and>
      bins fsm ! 0 = [7] \<and> bins fsm ! 1 = []"
  by (simp add: FsmUpdate_def FreeSpaceManager_new_def BinIndex_def Let_def map_emplace_def
        uset_insert_def)

text \<open>
  Claim C5. In every state reached from the constructor through \<^verbatim>\<open>Update\<close>, \<^verbatim>\<open>Remove\<close>,
  \<^verbatim>\<open>RegisterSegmentProbe\<close> and \<^verbatim>\<open>RebuildFromSegment\<close>, and for every request \<open>n\<close>:
  if some tracked page has recorded free bytes \<open>\<ge> n\<close> then \<^verbatim>\<open>Find(n)\<close> returns a tracked
  page whose recorded free bytes are \<open>\<ge> n\<close>; if none has, it returns
  \<^verbatim>\<open>kInvalidPageId\<close>; and whenever it returns a page id other than \<^verbatim>\<open>kInvalidPageId\<close>,
  that page is tracked with recorded free bytes \<open>\<ge> n\<close>.
\<close>

theorem Find_returns_fitting_page:
  fixes ops :: "fsm_op list" and page_size :: nat and ths :: "nat list"
  defines "fsm \<equiv> fold apply_fsm_op ops (FreeSpaceManager_new page_size ths)"
  shows "((\<exists>pid f. pid2free fsm pid = Some f \<and> n \<le> f) \<longrightarrow>
            (\<exists>f. pid2free fsm (Find fsm n) = Some f \<and> n \<le> f)) \<and>
         (\<not> (\<exists>pid f. pid2free fsm pid = Some f \<and> n \<le> f) \<longrightarrow> Find fsm n = kInvalidPageId) \<and>
         (Find fsm n \<noteq> kInvalidPageId \<longrightarrow>
            (\<exists>f. pid2free fsm (Find fsm n) = Some f \<and> n \<le> f))"
proof -
  have inv: "fsm_inv fsm" unfolding fsm_def by (rule fsm_inv_fold[OF fsm_inv_new])
  show ?thesis
    using Find_complete[OF inv] Find_sound[of fsm n] by blast
qed

theorem Find_returns_fitting_page_witness:
  "pid2free example_fsm 8 = Some 4000 \<and>
   (\<exists>f. pid2free example_fsm (Find example_fsm 700) = Some f \<and> 700 \<le> f) \<and>
   Find example_fsm 700 = 8 \<and> Find example_fsm 5000 = kInvalidPageId"
proof -
  have e: "pid2free example_fsm 8 = Some 4000" "Find example_fsm 700 = 8"
    "Find example_fsm 5000 = kInvalidPageId"
    by (simp_all add: example_fsm_def Find_def FsmUpdate_def FsmRemove_def
          FreeSpaceManager_new_def BinIndex_def Let_def map_emplace_def uset_insert_def
          uset_erase_def)
  then have "\<exists>pid f. pid2free example_fsm pid = Some f \<and> 700 \<le> f"
    by (intro exI[of _ 8] exI[of _ 4000]) simp
  with Find_returns_fitting_page[of "[FUpdate 3 100, FUpdate 5 3000, FUpdate 3 600, FRemove 5, FUpdate 8 4000]"
         8192 "[128, 512, 1024, 2048, 4096, 8192]" 700, folded example_fsm_def]
  have "\<exists>f. pid2free example_fsm (Find example_fsm 700) = Some f \<and> 700 \<le> f" by blast
  with e show ?thesis by simp
qed


section \<open>Clock replacer (clock\_replacer.h, clock\_replacer.cc)\<close>

text \<open>
  The two \<^verbatim>\<open>std::vector<char>\<close> bitmaps hold only 0 and 1 and are lists of booleans.
  Frame ids are natural numbers, so the test \<^verbatim>\<open>fid < 0\<close> of \<^verbatim>\<open>Pin\<close> and \<^verbatim>\<open>Unpin\<close> has
  no counterpart.
\<close>

record ClockReplacer =
  present :: "bool list"
  ref :: "bool list"
  hand :: nat
  cap :: nat

definition ClockReplacer_new :: "nat \<Rightarrow> ClockReplacer" where
  "ClockReplacer_new capacity =
     \<lparr> present = replicate capacity False, ref = replicate capacity False,
       hand = 0, cap = capacity \<rparr>"

definition ClockPin :: "ClockReplacer \<Rightarrow> nat \<Rightarrow> ClockReplacer" where
  "ClockPin r fid =
     (if fid \<ge> cap r then r
      else r\<lparr> present := (present r)[fid := False], ref := (ref r)[fid := False] \<rparr>)"

definition ClockUnpin :: "ClockReplacer \<Rightarrow> nat \<Rightarrow> ClockReplacer" where
  "ClockUnpin r fid =
     (if fid \<ge> cap r then r
      else r\<lparr> present := (present r)[fid := True], ref := (ref r)[fid := True] \<rparr>)"

text \<open>
  The loop of \<^verbatim>\<open>Victim\<close>; the first argument is the number of steps left,
  \<^verbatim>\<open>limit - scanned\<close>. The result is the frame written to \<^verbatim>\<open>*out\<close> when the call returns
  \<^verbatim>\<open>true\<close>, and \<open>None\<close> when it returns \<^verbatim>\<open>false\<close>.
\<close>

fun victim_loop :: "nat \<Rightarrow> ClockReplacer \<Rightarrow> nat option \<times> ClockReplacer" where
  "victim_loop 0 r = (None, r)"
| "victim_loop (Suc k) r =
     (if present r ! hand r then
        (if \<not> ref r ! hand r then
           (Some (hand r),
            r\<lparr> present := (present r)[hand r := False], ref := (ref r)[hand r := False],
               hand := (hand r + 1) mod cap r \<rparr>)
         else victim_loop k (r\<lparr> ref := (ref r)[hand r := False],
                                 hand := (hand r + 1) mod cap r \<rparr>))
      else victim_loop k (r\<lparr> hand := (hand r + 1) mod cap r \<rparr>))"

definition ClockVictim :: "ClockReplacer \<Rightarrow> nat option \<times> ClockReplacer" where
  "ClockVictim r = (if cap r = 0 then (None, r) else victim_loop (cap r * 2) r)"

definition ClockSize :: "ClockReplacer \<Rightarrow> nat" where
  "ClockSize r = length (filter (\<lambda>i. present r ! i) [0..<cap r])"

subsection \<open>Clock replacer: the claim\<close>

text \<open>
  Claim C8 as stated fails: on a fresh replacer of three frames, unpinned in the order
  0, 1, 2, the first \<^verbatim>\<open>Victim\<close> call does select a victim, frame 0. The step limit is
  \<open>2 * capacity\<close>, so the sweep that clears the three reference bits goes on in the same
  call and finds the frame at the hand with its bit cleared.
\<close>

theorem first_Victim_call_selects_a_frame:
  "fst (ClockVictim (ClockUnpin (ClockUnpin (ClockUnpin (ClockReplacer_new 3) 0) 1) 2)) = Some 0"
  by code_simp

text \<open>
  Claim C8 (amended). With three frames, all in the candidate set and all with the
  reference bit set, and the hand at frame \<open>h\<close>: the first \<^verbatim>\<open>Victim\<close> call clears the three
  reference bits and, in the same call, selects frame \<open>h\<close>, removes it from the candidate
  set and leaves the hand on the next frame; the second call selects that next frame,
  \<open>(h + 1) mod 3\<close>.
\<close>

theorem Victim_three_frames_all_referenced:
  assumes "h < 3"
  shows "ClockVictim \<lparr> present = [True, True, True], ref = [True, True, True], hand = h, cap = 3 \<rparr>
           = (Some h, \<lparr> present = [True, True, True][h := False], ref = [False, False, False],
                         hand = (h + 1) mod 3, cap = 3 \<rparr>) \<and>
         fst (ClockVictim (snd (ClockVictim
                \<lparr> present = [True, True, True], ref = [True, True, True], hand = h, cap = 3 \<rparr>)))
           = Some ((h + 1) mod 3)"
proof -
  from assms consider "h = 0" | "h = 1" | "h = 2" by linarith
  then show ?thesis
  proof cases
    case 1
    show ?thesis unfolding 1 by code_simp
  next
    case 2
    show ?thesis unfolding 2 by code_simp
  next
    case 3
    show ?thesis unfolding 3 by code_simp
  qed
qed

theorem Victim_three_frames_all_referenced_witness:
  "ClockUnpin (ClockUnpin (ClockUnpin (ClockReplacer_new 3) 0) 1) 2
     = \<lparr> present = [True, True, True], ref = [True, True, True], hand = 0, cap = 3 \<rparr> \<and>
   ClockVictim \<lparr> present = [True, True, True], ref = [True, True, True], hand = 0, cap = 3 \<rparr>
     = (Some 0, \<lparr> present = [False, True, True], ref = [False, False, False],
                   hand = 1, cap = 3 \<rparr>) \<and>
   fst (ClockVictim (snd (ClockVictim
          \<lparr> present = [True, True, True], ref = [True, True, True], hand = 0, cap = 3 \<rparr>)))
     = Some 1"
proof -
  have "ClockUnpin (ClockUnpin (ClockUnpin (ClockReplacer_new 3) 0) 1) 2
     = \<lparr> present = [True, True, True], ref = [True, True, True], hand = 0, cap = 3 \<rparr>"
    by code_simp
  moreover have "(0::nat) < 3" by simp
  note Victim_three_frames_all_referenced[OF this, simplified]
  ultimately show ?thesis unfolding One_nat_def by blast
qed


section \<open>Record model (schema.h, schema.cc, tuple.h, tuple.cc)\<close>

text \<open>\<^verbatim>\<open>enum class Type\<close>; \<open>CHAR_N\<close> is the enumerator \<^verbatim>\<open>CHAR\<close>.\<close>

datatype Type = INT32 | INT64 | FLOAT | DOUBLE | CHAR_N | VARCHAR | DATE

text \<open>\<^verbatim>\<open>struct Column\<close>; \<open>col_len\<close> is the \<^verbatim>\<open>uint32_t len\<close> of \<^verbatim>\<open>CHAR\<close> and \<^verbatim>\<open>VARCHAR\<close>.\<close>

record Column =
  col_name :: string
  col_type :: Type
  col_len :: nat
  col_nullable :: bool

definition FixedSizeOfType :: "Type \<Rightarrow> nat \<Rightarrow> nat" where
  "FixedSizeOfType t char_or_varchar_len =
     (case t of INT32 \<Rightarrow> 4 | INT64 \<Rightarrow> 8 | FLOAT \<Rightarrow> 4 | DOUBLE \<Rightarrow> 8 | DATE \<Rightarrow> 4
      | CHAR_N \<Rightarrow> char_or_varchar_len | VARCHAR \<Rightarrow> 4)"

record Schema =
  columns :: "Column list"
  use_null_bitmap :: bool
  null_bytes :: nat
  fixed_area_size :: nat
  fixed_offsets :: "nat list"
  fixed_sizes :: "nat list"

text \<open>
  The loop of \<^verbatim>\<open>BuildLayout\<close> from running offset \<open>off\<close> (a \<^verbatim>\<open>size_t\<close>): the offsets and
  sizes, each stored through a cast to \<^verbatim>\<open>uint32_t\<close>, and the final offset.
\<close>

fun layout :: "Column list \<Rightarrow> nat \<Rightarrow> nat list \<times> nat list \<times> nat" where
  "layout [] off0 = ([], [], off0)"
| "layout (c # cs) off0 =
     (let sz = FixedSizeOfType (col_type c) (col_len c);
          (os, ss, e) = layout cs (off0 + sz)
      in (off0 mod 4294967296 # os, sz mod 4294967296 # ss, e))"

definition Schema_new :: "Column list \<Rightarrow> bool \<Rightarrow> Schema" where
  "Schema_new cols use_nb =
     (let n = length cols;
          nb = (if use_nb then (n + 7) div 8 else 0);
          (os, ss, e) = layout cols nb
      in \<lparr> columns = cols, use_null_bitmap = use_nb, null_bytes = nb,
           fixed_area_size = e, fixed_offsets = os, fixed_sizes = ss \<rparr>)"

definition ColumnCount :: "Schema \<Rightarrow> nat" where
  "ColumnCount s = length (columns s)"

text \<open>\<^verbatim>\<open>columns_.at(idx)\<close> throws \<^verbatim>\<open>std::out_of_range\<close> beyond the end: \<open>None\<close>.\<close>

definition GetColumn :: "Schema \<Rightarrow> nat \<Rightarrow> Column option" where
  "GetColumn s idx = (if idx < length (columns s) then Some (columns s ! idx) else None)"

definition FixedSizeOf :: "Schema \<Rightarrow> nat \<Rightarrow> nat" where
  "FixedSizeOf s idx = FixedSizeOfType (col_type (columns s ! idx)) (col_len (columns s ! idx))"

definition FixedOffsetOf :: "Schema \<Rightarrow> nat \<Rightarrow> nat" where
  "FixedOffsetOf s idx = fixed_offsets s ! idx"

text \<open>
  Object representations. \<^verbatim>\<open>memcpy\<close> of an integer of \<open>k\<close> bytes writes its value in
  little-endian order; a \<^verbatim>\<open>float\<close> or \<^verbatim>\<open>double\<close> is carried as the word of its bit pattern.
\<close>

fun le_bytes :: "nat \<Rightarrow> nat \<Rightarrow> byte list" where
  "le_bytes 0 v = []"
| "le_bytes (Suc k) v = of_nat (v mod 256) # le_bytes k (v div 256)"

fun le_value :: "byte list \<Rightarrow> nat" where
  "le_value [] = 0"
| "le_value (b # bs) = unat b + 256 * le_value bs"

text \<open>\<^verbatim>\<open>memcpy(dst + off, src, n)\<close> into a buffer, and the \<open>n\<close> bytes at \<open>off\<close> of a buffer.\<close>

definition write_at :: "byte list \<Rightarrow> nat \<Rightarrow> byte list \<Rightarrow> byte list" where
  "write_at buf off0 src = take off0 buf @ src @ drop (off0 + length src) buf"

definition read_fixed :: "byte list \<Rightarrow> nat \<Rightarrow> nat \<Rightarrow> byte list" where
  "read_fixed buf off0 n = take n (drop off0 buf)"

subsection \<open>Tuple\<close>

type_synonym Tuple = "byte list"

definition IsNull :: "Schema \<Rightarrow> Tuple \<Rightarrow> nat \<Rightarrow> bool" where
  "IsNull s t i =
     (if \<not> use_null_bitmap s then False
      else if null_bytes s = 0 \<or> length t < null_bytes s then False
      else bit (t ! (i div 8)) (i mod 8))"

text \<open>
  The getters. The outer \<open>None\<close> is the exception of \<^verbatim>\<open>GetColumn\<close>; \<open>Inl\<close> is an error
  status and \<open>Inr\<close> the value written to the output parameter with status \<^verbatim>\<open>Ok\<close>.
\<close>

definition get_fixed ::
  "Type \<Rightarrow> nat \<Rightarrow> Schema \<Rightarrow> Tuple \<Rightarrow> nat \<Rightarrow> (StatusCode + 'a::len word) option" where
  "get_fixed ty n s t i =
     (if IsNull s t i then Some (Inl kNotFound)
      else case GetColumn s i of
        None \<Rightarrow> None
      | Some c \<Rightarrow>
          if col_type c \<noteq> ty then Some (Inl kInvalidArgument)
          else Some (Inr (of_nat (le_value (read_fixed t (FixedOffsetOf s i) n)))))"

definition GetInt32 :: "Schema \<Rightarrow> Tuple \<Rightarrow> nat \<Rightarrow> (StatusCode + 32 word) option" where
  "GetInt32 = get_fixed INT32 4"

definition GetInt64 :: "Schema \<Rightarrow> Tuple \<Rightarrow> nat \<Rightarrow> (StatusCode + 64 word) option" where
  "GetInt64 = get_fixed INT64 8"

definition GetFloat :: "Schema \<Rightarrow> Tuple \<Rightarrow> nat \<Rightarrow> (StatusCode + 32 word) option" where
  "GetFloat = get_fixed FLOAT 4"

definition GetDouble :: "Schema \<Rightarrow> Tuple \<Rightarrow> nat \<Rightarrow> (StatusCode + 64 word) option" where
  "GetDouble = get_fixed DOUBLE 8"

definition GetDate :: "Schema \<Rightarrow> Tuple \<Rightarrow> nat \<Rightarrow> (StatusCode + 32 word) option" where
  "GetDate = get_fixed DATE 4"

text \<open>The loop of \<^verbatim>\<open>GetChar\<close> that steps back over trailing zero bytes.\<close>

definition trim_zeros :: "byte list \<Rightarrow> byte list" where
  "trim_zeros bs = rev (dropWhile (\<lambda>b. b = 0) (rev bs))"

definition GetChar :: "Schema \<Rightarrow> Tuple \<Rightarrow> nat \<Rightarrow> (StatusCode + byte list) option" where
  "GetChar s t i =
     (if IsNull s t i then Some (Inl kNotFound)
      else case GetColumn s i of
        None \<Rightarrow> None
      | Some c \<Rightarrow>
          if col_type c \<noteq> CHAR_N then Some (Inl kInvalidArgument)
          else Some (Inr (trim_zeros (read_fixed t (FixedOffsetOf s i) (FixedSizeOf s i)))))"

definition GetVarChar :: "Schema \<Rightarrow> Tuple \<Rightarrow> nat \<Rightarrow> (StatusCode + byte list) option" where
  "GetVarChar s t i =
     (if IsNull s t i then Some (Inl kNotFound)
      else case GetColumn s i of
        None \<Rightarrow> None
      | Some c \<Rightarrow>
          if col_type c \<noteq> VARCHAR then Some (Inl kInvalidArgument)
          else
            let voff = le_value (read_fixed t (FixedOffsetOf s i) 2);
                vlen = le_value (read_fixed t (FixedOffsetOf s i + 2) 2)
            in if voff + vlen > length t then Some (Inl kCorruption)
               else Some (Inr (take vlen (drop voff t))))"

subsection \<open>TupleBuilder\<close>

record TupleBuilder =
  tb_schema :: Schema
  tb_row :: "byte list"
  tb_var :: "byte list"
  tb_set :: "bool list"

definition TupleBuilder_new :: "Schema \<Rightarrow> TupleBuilder" where
  "TupleBuilder_new s =
     \<lparr> tb_schema = s, tb_row = replicate (fixed_area_size s) 0, tb_var = [],
       tb_set = replicate (ColumnCount s) False \<rparr>"

definition SetNullBit :: "TupleBuilder \<Rightarrow> nat \<Rightarrow> TupleBuilder" where
  "SetNullBit tb i =
     (if \<not> use_null_bitmap (tb_schema tb) then tb
      else tb\<lparr> tb_row := (tb_row tb)[i div 8 := set_bit (i mod 8) (tb_row tb ! (i div 8))] \<rparr>)"

definition SetNull :: "TupleBuilder \<Rightarrow> nat \<Rightarrow> StatusCode \<times> TupleBuilder" where
  "SetNull tb i =
     (let s = tb_schema tb in
      if i \<ge> ColumnCount s then (kOutOfRange, tb)
      else if \<not> col_nullable (columns s ! i) \<and> use_null_bitmap s then (kInvalidArgument, tb)
      else if use_null_bitmap s then
        (kOk, (SetNullBit tb i)\<lparr> tb_set := (tb_set tb)[i := True] \<rparr>)
      else (kInvalidArgument, tb))"

text \<open>The five setters of fixed-width values differ in the type tag and the width.\<close>

definition set_fixed ::
  "Type \<Rightarrow> nat \<Rightarrow> TupleBuilder \<Rightarrow> nat \<Rightarrow> 'a::len word \<Rightarrow> StatusCode \<times> TupleBuilder" where
  "set_fixed ty n tb i v =
     (let s = tb_schema tb in
      if i \<ge> ColumnCount s then (kOutOfRange, tb)
      else if col_type (columns s ! i) \<noteq> ty then (kInvalidArgument, tb)
      else (kOk, tb\<lparr> tb_row := write_at (tb_row tb) (FixedOffsetOf s i) (le_bytes n (unat v)),
                      tb_set := (tb_set tb)[i := True] \<rparr>))"

definition SetInt32 :: "TupleBuilder \<Rightarrow> nat \<Rightarrow> 32 word \<Rightarrow> StatusCode \<times> TupleBuilder" where
  "SetInt32 = set_fixed INT32 4"

definition SetInt64 :: "TupleBuilder \<Rightarrow> nat \<Rightarrow> 64 word \<Rightarrow> StatusCode \<times> TupleBuilder" where
  "SetInt64 = set_fixed INT64 8"

definition SetFloat :: "TupleBuilder \<Rightarrow> nat \<Rightarrow> 32 word \<Rightarrow> StatusCode \<times> TupleBuilder" where
  "SetFloat = set_fixed FLOAT 4"

definition SetDouble :: "TupleBuilder \<Rightarrow> nat \<Rightarrow> 64 word \<Rightarrow> StatusCode \<times> TupleBuilder" where
  "SetDouble = set_fixed DOUBLE 8"

definition SetDate :: "TupleBuilder \<Rightarrow> nat \<Rightarrow> 32 word \<Rightarrow> StatusCode \<times> TupleBuilder" where
  "SetDate = set_fixed DATE 4"

definition SetChar :: "TupleBuilder \<Rightarrow> nat \<Rightarrow> byte list \<Rightarrow> StatusCode \<times> TupleBuilder" where
  "SetChar tb i v =
     (let s = tb_schema tb in
      if i \<ge> ColumnCount s then (kOutOfRange, tb)
      else if col_type (columns s ! i) \<noteq> CHAR_N then (kInvalidArgument, tb)
      else
        let N = FixedSizeOf s i;
            copy = min N (length v);
            buf = take copy v @ replicate (N - copy) 0
        in (kOk, tb\<lparr> tb_row := write_at (tb_row tb) (FixedOffsetOf s i) buf,
                       tb_set := (tb_set tb)[i := True] \<rparr>))"

definition SetVarChar :: "TupleBuilder \<Rightarrow> nat \<Rightarrow> byte list \<Rightarrow> StatusCode \<times> TupleBuilder" where
  "SetVarChar tb i v =
     (let s = tb_schema tb in
      if i \<ge> ColumnCount s then (kOutOfRange, tb)
      else if col_type (columns s ! i) \<noteq> VARCHAR then (kInvalidArgument, tb)
      else if length v > col_len (columns s ! i) then (kOutOfRange, tb)
      else
        let voff = (fixed_area_size s + length (tb_var tb)) mod 65536;
            vlen = length v mod 65536;
            row1 = write_at (tb_row tb) (FixedOffsetOf s i) (le_bytes 2 voff);
            row2 = write_at row1 (FixedOffsetOf s i + 2) (le_bytes 2 vlen)
        in (kOk, tb\<lparr> tb_row := row2, tb_var := tb_var tb @ v,
                       tb_set := (tb_set tb)[i := True] \<rparr>))"

definition Build :: "TupleBuilder \<Rightarrow> StatusCode + Tuple" where
  "Build tb =
     (if \<exists>i \<in> set [0..<ColumnCount (tb_schema tb)]. \<not> tb_set tb ! i then Inl kInvalidArgument
      else Inr (tb_row tb @ tb_var tb))"

subsection \<open>Values and building a tuple from them\<close>

text \<open>A column value, tagged with the setter and getter that carry it.\<close>

datatype Value =
    VInt32 "32 word" | VInt64 "64 word" | VFloat "32 word" | VDouble "64 word"
  | VDate "32 word" | VChar "byte list" | VVarChar "byte list"

fun set_value :: "TupleBuilder \<Rightarrow> nat \<Rightarrow> Value \<Rightarrow> StatusCode \<times> TupleBuilder" where
  "set_value tb i (VInt32 w) = SetInt32 tb i w"
| "set_value tb i (VInt64 w) = SetInt64 tb i w"
| "set_value tb i (VFloat w) = SetFloat tb i w"
| "set_value tb i (VDouble w) = SetDouble tb i w"
| "set_value tb i (VDate w) = SetDate tb i w"
| "set_value tb i (VChar bs) = SetChar tb i bs"
| "set_value tb i (VVarChar bs) = SetVarChar tb i bs"

text \<open>
  Setting the columns \<open>js\<close> one after the other to their values in \<open>V\<close>; the result is
  whether every call returned \<^verbatim>\<open>Ok\<close>, and the builder.
\<close>

fun set_columns :: "Value list \<Rightarrow> nat list \<Rightarrow> TupleBuilder \<Rightarrow> bool \<times> TupleBuilder" where
  "set_columns V [] tb = (True, tb)"
| "set_columns V (j # js) tb =
     (let (st, tb1) = set_value tb j (V ! j);
          (ok, tb2) = set_columns V js tb1
      in (st = kOk \<and> ok, tb2))"

text \<open>What the getter of the value's kind returns for column \<open>i\<close> of a tuple.\<close>

fun getter_returns :: "Schema \<Rightarrow> Tuple \<Rightarrow> nat \<Rightarrow> Value \<Rightarrow> bool" where
  "getter_returns s t i (VInt32 w) \<longleftrightarrow> GetInt32 s t i = Some (Inr w)"
| "getter_returns s t i (VInt64 w) \<longleftrightarrow> GetInt64 s t i = Some (Inr w)"
| "getter_returns s t i (VFloat w) \<longleftrightarrow> GetFloat s t i = Some (Inr w)"
| "getter_returns s t i (VDouble w) \<longleftrightarrow> GetDouble s t i = Some (Inr w)"
| "getter_returns s t i (VDate w) \<longleftrightarrow> GetDate s t i = Some (Inr w)"
| "getter_returns s t i (VChar bs) \<longleftrightarrow>
     GetChar s t i = Some (Inr (trim_zeros (take (col_len (columns s ! i)) bs)))"
| "getter_returns s t i (VVarChar bs) \<longleftrightarrow> GetVarChar s t i = Some (Inr bs)"

text \<open>A value fits a column: the kinds agree, and a \<^verbatim>\<open>VARCHAR\<close> respects the bound.\<close>

fun value_fits :: "Column \<Rightarrow> Value \<Rightarrow> bool" where
  "value_fits c (VInt32 w) \<longleftrightarrow> col_type c = INT32"
| "value_fits c (VInt64 w) \<longleftrightarrow> col_type c = INT64"
| "value_fits c (VFloat w) \<longleftrightarrow> col_type c = FLOAT"
| "value_fits c (VDouble w) \<longleftrightarrow> col_type c = DOUBLE"
| "value_fits c (VDate w) \<longleftrightarrow> col_type c = DATE"
| "value_fits c (VChar bs) \<longleftrightarrow> col_type c = CHAR_N"
| "value_fits c (VVarChar bs) \<longleftrightarrow> col_type c = VARCHAR \<and> length bs \<le> col_len c"

text \<open>The bytes a value adds to the variable area.\<close>

fun var_size :: "Value \<Rightarrow> nat" where
  "var_size (VVarChar bs) = length bs"
| "var_size _ = 0"

subsection \<open>Layout and builder invariant\<close>

text \<open>The size of a column's fixed cell and the offset the layout gives it.\<close>

definition col_size :: "Column \<Rightarrow> nat" where
  "col_size c = FixedSizeOfType (col_type c) (col_len c)"

definition cell_off :: "Schema \<Rightarrow> nat \<Rightarrow> nat" where
  "cell_off s i = null_bytes s + sum_list (map col_size (take i (columns s)))"

text \<open>The fixed cell of column \<open>i\<close> in a row buffer.\<close>

definition cell :: "Schema \<Rightarrow> byte list \<Rightarrow> nat \<Rightarrow> byte list" where
  "cell s buf i = read_fixed buf (cell_off s i) (col_size (columns s ! i))"

text \<open>
  The cell of column \<open>i\<close> holds the representation of a value: for a \<^verbatim>\<open>VARCHAR\<close>, an
  offset and a length that address the value inside the variable area \<open>vr\<close>.
\<close>

fun encoded :: "Schema \<Rightarrow> byte list \<Rightarrow> byte list \<Rightarrow> nat \<Rightarrow> Value \<Rightarrow> bool" where
  "encoded s rw vr i (VInt32 w) \<longleftrightarrow> cell s rw i = le_bytes 4 (unat w)"
| "encoded s rw vr i (VInt64 w) \<longleftrightarrow> cell s rw i = le_bytes 8 (unat w)"
| "encoded s rw vr i (VFloat w) \<longleftrightarrow> cell s rw i = le_bytes 4 (unat w)"
| "encoded s rw vr i (VDouble w) \<longleftrightarrow> cell s rw i = le_bytes 8 (unat w)"
| "encoded s rw vr i (VDate w) \<longleftrightarrow> cell s rw i = le_bytes 4 (unat w)"
| "encoded s rw vr i (VChar bs) \<longleftrightarrow>
     cell s rw i = take (col_len (columns s ! i)) bs @ replicate (col_len (columns s ! i) - length bs) 0"
| "encoded s rw vr i (VVarChar bs) \<longleftrightarrow>
     (\<exists>voff. cell s rw i = le_bytes 2 voff @ le_bytes 2 (length bs) \<and>
        fixed_area_size s \<le> voff \<and> voff < 65536 \<and> length bs < 65536 \<and>
        voff - fixed_area_size s + length bs \<le> length vr \<and>
        take (length bs) (drop (voff - fixed_area_size s) vr) = bs)"

text \<open>
  The builder after the columns \<open>D\<close> have been set and \<open>vl\<close> bytes appended to the variable
  area: the flags say \<open>D\<close>, the null bitmap is clear, the cells of \<open>D\<close> hold the values.
\<close>

definition tb_inv :: "Schema \<Rightarrow> Value list \<Rightarrow> nat set \<Rightarrow> nat \<Rightarrow> TupleBuilder \<Rightarrow> bool" where
  "tb_inv s V D vl tb \<longleftrightarrow>
     tb_schema tb = s \<and> length (tb_row tb) = fixed_area_size s \<and>
     length (tb_set tb) = length (columns s) \<and> length (tb_var tb) = vl \<and>
     (\<forall>i<length (columns s). tb_set tb ! i \<longleftrightarrow> i \<in> D) \<and>
     (\<forall>k<null_bytes s. tb_row tb ! k = 0) \<and>
     (\<forall>i\<in>D. i < length (columns s) \<and> encoded s (tb_row tb) (tb_var tb) i (V ! i))"

text \<open>The bytes a sequence of calls appends to the variable area.\<close>

definition var_total :: "Value list \<Rightarrow> nat list \<Rightarrow> nat" where
  "var_total V js = sum_list (map (\<lambda>j. var_size (V ! j)) js)"

text \<open>
  Two concrete schemas: a small one, and one whose fixed area is exactly 65536 bytes
  (a \<^verbatim>\<open>CHAR(65532)\<close> and a \<^verbatim>\<open>VARCHAR(10)\<close>), each with a tuple built for it.
\<close>

definition small_columns :: "Column list" where
  "small_columns =
     [\<lparr> col_name = ''k'', col_type = INT32, col_len = 0, col_nullable = False \<rparr>,
      \<lparr> col_name = ''c'', col_type = CHAR_N, col_len = 4, col_nullable = False \<rparr>,
      \<lparr> col_name = ''v'', col_type = VARCHAR, col_len = 8, col_nullable = True \<rparr>]"

definition small_values :: "Value list" where
  "small_values = [VInt32 42, VChar [97, 98], VVarChar [104, 101, 121]]"

definition small_builder :: TupleBuilder where
  "small_builder =
     snd (set_columns small_values [2, 0, 1] (TupleBuilder_new (Schema_new small_columns True)))"

definition wide_columns :: "Column list" where
  "wide_columns =
     [\<lparr> col_name = ''pad'', col_type = CHAR_N, col_len = 65532, col_nullable = False \<rparr>,
      \<lparr> col_name = ''v'', col_type = VARCHAR, col_len = 10, col_nullable = False \<rparr>]"

definition wide_builder :: TupleBuilder where
  "wide_builder =
     snd (set_columns [VChar [], VVarChar [97, 98]] [0, 1]
            (TupleBuilder_new (Schema_new wide_columns False)))"

subsection \<open>Setting columns keeps the builder invariant\<close>

lemma length_write_at: "off0 + length src \<le> length buf \<Longrightarrow> length (write_at buf off0 src) = length buf"
  by (simp add: write_at_def)

lemma read_write_same:
  "off0 + length src \<le> length buf \<Longrightarrow> read_fixed (write_at buf off0 src) off0 (length src) = src"
  by (simp add: write_at_def read_fixed_def)

lemma read_write_before:
  "o' + n' \<le> off0 \<Longrightarrow> off0 + length src \<le> length buf \<Longrightarrow>
   read_fixed (write_at buf off0 src) o' n' = read_fixed buf o' n'"
  by (rule nth_equalityI) (auto simp: write_at_def read_fixed_def nth_append)

lemma read_write_after:
  "off0 + length src \<le> o' \<Longrightarrow> off0 + length src \<le> length buf \<Longrightarrow>
   read_fixed (write_at buf off0 src) o' n' = read_fixed buf o' n'"
  by (simp add: write_at_def read_fixed_def)

lemma nth_write_before:
  "k < off0 \<Longrightarrow> off0 + length src \<le> length buf \<Longrightarrow> write_at buf off0 src ! k = buf ! k"
  by (simp add: write_at_def nth_append)

lemma write_at_twice:
  "off0 + length a + length b \<le> length buf \<Longrightarrow>
   write_at (write_at buf off0 a) (off0 + length a) b = write_at buf off0 (a @ b)"
  by (simp add: write_at_def ac_simps)

lemma read_append_left:
  "off0 + n \<le> length xs \<Longrightarrow> read_fixed (xs @ ys) off0 n = read_fixed xs off0 n"
  by (simp add: read_fixed_def)

lemma length_le_bytes [simp]: "length (le_bytes k v) = k"
  by (induction k arbitrary: v) simp_all

lemma le_value_le_bytes: "le_value (le_bytes k v) = v mod 256 ^ k"
proof (induction k arbitrary: v)
  case 0
  then show ?case by simp
next
  case (Suc k)
  have "unat (of_nat (v mod 256) :: byte) = v mod 256"
    by (simp add: unat_of_nat)
  with Suc show ?case
    by (simp add: mod_mult2_eq)
qed

lemma word32_roundtrip: "(of_nat (le_value (le_bytes 4 (unat (w :: 32 word)))) :: 32 word) = w"
proof -
  have "unat w < 2 ^ LENGTH(32)" by (rule unsigned_less)
  then have "unat w < 256 ^ 4" by simp
  then show ?thesis by (simp add: le_value_le_bytes)
qed

lemma word64_roundtrip: "(of_nat (le_value (le_bytes 8 (unat (w :: 64 word)))) :: 64 word) = w"
proof -
  have "unat w < 2 ^ LENGTH(64)" by (rule unsigned_less)
  then have "unat w < 256 ^ 8" by simp
  then show ?thesis by (simp add: le_value_le_bytes)
qed

lemma trim_zeros_pad: "trim_zeros (bs @ replicate k 0) = trim_zeros bs"
proof -
  have "dropWhile (\<lambda>b. b = 0) (replicate k (0::byte) @ xs) = dropWhile (\<lambda>b. b = 0) xs" for xs
    by (induction k) simp_all
  then show ?thesis by (simp add: trim_zeros_def)
qed

lemma layout_props:
  assumes "layout cs off0 = (os, ss, e)"
  shows "length os = length cs \<and> e = off0 + sum_list (map col_size cs) \<and>
         (e < 4294967296 \<longrightarrow> (\<forall>i<length cs. os ! i = off0 + sum_list (map col_size (take i cs))))"
  using assms
proof (induction cs arbitrary: off0 os ss e)
  case Nil
  then show ?case by simp
next
  case (Cons c cs)
  obtain os1 ss1 e1 where l: "layout cs (off0 + col_size c) = (os1, ss1, e1)"
    by (cases "layout cs (off0 + col_size c)") auto
  from Cons.prems l have os: "os = off0 mod 4294967296 # os1" and e: "e = e1"
    by (simp_all add: col_size_def Let_def)
  from Cons.IH[OF l] have ih: "length os1 = length cs" "e1 = off0 + col_size c + sum_list (map col_size cs)"
    "e1 < 4294967296 \<longrightarrow> (\<forall>i<length cs. os1 ! i = off0 + col_size c + sum_list (map col_size (take i cs)))"
    by simp_all
  have "\<forall>i<length (c # cs). os ! i = off0 + sum_list (map col_size (take i (c # cs)))"
    if lt: "e < 4294967296"
  proof (intro allI impI)
    fix i assume i: "i < length (c # cs)"
    show "os ! i = off0 + sum_list (map col_size (take i (c # cs)))"
    proof (cases i)
      case 0
      from lt e ih(2) have "off0 < 4294967296" by simp
      with 0 os show ?thesis by simp
    next
      case (Suc k)
      with i have "k < length cs" by simp
      with ih(3) lt e have "os1 ! k = off0 + col_size c + sum_list (map col_size (take k cs))" by simp
      with Suc os show ?thesis by simp
    qed
  qed
  with os e ih show ?case by simp
qed

lemma Schema_new_fields:
  "columns (Schema_new cols ub) = cols" "use_null_bitmap (Schema_new cols ub) = ub"
  "null_bytes (Schema_new cols ub) = (if ub then (length cols + 7) div 8 else 0)"
  by (simp_all add: Schema_new_def Let_def split: prod.splits)

lemma Schema_new_layout:
  fixes cols ub
  defines "s \<equiv> Schema_new cols ub"
  shows "length (fixed_offsets s) = length cols"
    and "fixed_area_size s = null_bytes s + sum_list (map col_size cols)"
    and "fixed_area_size s < 4294967296 \<Longrightarrow> i < length cols \<Longrightarrow> FixedOffsetOf s i = cell_off s i"
proof -
  define nb where "nb = (if ub then (length cols + 7) div 8 else 0)"
  obtain os ss e where l: "layout cols nb = (os, ss, e)"
    by (cases "layout cols nb") auto
  have S: "s = \<lparr> columns = cols, use_null_bitmap = ub, null_bytes = nb,
           fixed_area_size = e, fixed_offsets = os, fixed_sizes = ss \<rparr>"
    using l by (simp add: s_def Schema_new_def Let_def nb_def)
  then have f: "fixed_offsets s = os" "fixed_area_size s = e" "columns s = cols" "null_bytes s = nb"
    by simp_all
  from layout_props[OF l] f show "length (fixed_offsets s) = length cols"
    and "fixed_area_size s = null_bytes s + sum_list (map col_size cols)"
    and "fixed_area_size s < 4294967296 \<Longrightarrow> i < length cols \<Longrightarrow> FixedOffsetOf s i = cell_off s i"
    by (simp_all add: FixedOffsetOf_def cell_off_def)
qed

lemma cell_off_Suc:
  "i < length (columns s) \<Longrightarrow> cell_off s (Suc i) = cell_off s i + col_size (columns s ! i)"
  by (simp add: cell_off_def take_Suc_conv_app_nth)

lemma cell_off_mono: "i \<le> j \<Longrightarrow> cell_off s i \<le> cell_off s j"
proof (induction j)
  case 0
  then show ?case by simp
next
  case (Suc j)
  show ?case
  proof (cases "i = Suc j")
    case True
    then show ?thesis by simp
  next
    case False
    with Suc have le: "cell_off s i \<le> cell_off s j" by simp
    show ?thesis
    proof (cases "j < length (columns s)")
      case True
      with le cell_off_Suc[OF True] show ?thesis by simp
    next
      case False
      then have "cell_off s (Suc j) = cell_off s j" by (simp add: cell_off_def)
      with le show ?thesis by simp
    qed
  qed
qed

lemma cells_disjoint:
  assumes "i < j" and "i < length (columns s)"
  shows "cell_off s i + col_size (columns s ! i) \<le> cell_off s j"
  using cell_off_mono[of "Suc i" j s] cell_off_Suc[OF assms(2)] assms(1) by simp

lemma cell_in_fixed_area:
  assumes "i < length cols"
  shows "cell_off (Schema_new cols ub) i + col_size (cols ! i) \<le> fixed_area_size (Schema_new cols ub)"
proof -
  let ?s = "Schema_new cols ub"
  have c: "columns ?s = cols" by (rule Schema_new_fields)
  have "cell_off ?s (length cols) = fixed_area_size ?s"
    by (simp add: cell_off_def c Schema_new_layout(2))
  moreover have "cell_off ?s (Suc i) \<le> cell_off ?s (length cols)"
    using assms by (intro cell_off_mono) simp
  ultimately show ?thesis using cell_off_Suc[of i ?s] assms c by simp
qed

lemma null_bytes_le_cell: "null_bytes s \<le> cell_off s i"
  by (simp add: cell_off_def)

lemma cell_write_other:
  assumes s: "s = Schema_new cols ub" and i: "i < length cols" and j: "j < length cols"
    and ij: "i \<noteq> j" and l: "length src = col_size (cols ! j)"
    and r: "length rw = fixed_area_size s"
  shows "cell s (write_at rw (cell_off s j) src) i = cell s rw i"
proof -
  have c: "columns s = cols" by (simp add: s Schema_new_fields)
  have fit: "cell_off s j + length src \<le> length rw"
    using cell_in_fixed_area[OF j, of ub] l r s by simp
  show ?thesis
  proof (cases "i < j")
    case True
    from cells_disjoint[OF True, of s] i c
    have "cell_off s i + col_size (columns s ! i) \<le> cell_off s j" by simp
    from read_write_before[OF this fit] show ?thesis by (simp add: cell_def)
  next
    case False
    with ij have ji: "j < i" by simp
    from cells_disjoint[OF ji, of s] j c l
    have "cell_off s j + length src \<le> cell_off s i" by simp
    from read_write_after[OF this fit] show ?thesis by (simp add: cell_def)
  qed
qed

lemma encoded_cong:
  assumes "cell s rw' i = cell s rw i" and "encoded s rw vr i x"
  shows "encoded s rw' (vr @ ex) i x"
  using assms by (cases x) auto

lemma tb_inv_write:
  assumes s: "s = Schema_new cols ub" and inv: "tb_inv s V D vl tb" and j: "j < length cols"
    and l: "length src = col_size (cols ! j)"
    and e: "encoded s (write_at (tb_row tb) (cell_off s j) src) (tb_var tb @ ex) j (V ! j)"
  shows "tb_inv s V (insert j D) (vl + length ex)
           (tb\<lparr> tb_row := write_at (tb_row tb) (cell_off s j) src, tb_var := tb_var tb @ ex,
                 tb_set := (tb_set tb)[j := True] \<rparr>)"
proof -
  have c: "columns s = cols" by (simp add: s Schema_new_fields)
  from inv have r: "length (tb_row tb) = fixed_area_size s" by (simp add: tb_inv_def)
  have fit: "cell_off s j + length src \<le> length (tb_row tb)"
    using cell_in_fixed_area[OF j, of ub] l r s by simp
  have nb: "\<forall>k<null_bytes s. write_at (tb_row tb) (cell_off s j) src ! k = 0"
  proof (intro allI impI)
    fix k assume k: "k < null_bytes s"
    with null_bytes_le_cell[of s j] have "k < cell_off s j" by simp
    from nth_write_before[OF this fit] inv k show "write_at (tb_row tb) (cell_off s j) src ! k = 0"
      by (simp add: tb_inv_def)
  qed
  have en: "\<forall>i\<in>insert j D. i < length (columns s) \<and>
      encoded s (write_at (tb_row tb) (cell_off s j) src) (tb_var tb @ ex) i (V ! i)"
  proof
    fix i assume i: "i \<in> insert j D"
    show "i < length (columns s) \<and>
      encoded s (write_at (tb_row tb) (cell_off s j) src) (tb_var tb @ ex) i (V ! i)"
    proof (cases "i = j")
      case True
      with e j c show ?thesis by simp
    next
      case False
      with i inv have d: "i < length cols" "encoded s (tb_row tb) (tb_var tb) i (V ! i)"
        by (auto simp: tb_inv_def c)
      from encoded_cong[OF cell_write_other[OF s d(1) j False l r] d(2)] d(1) c
      show ?thesis by simp
    qed
  qed
  show ?thesis
    unfolding tb_inv_def using inv nb en fit j c
    by (auto simp: tb_inv_def length_write_at nth_list_update)
qed

lemma set_fixed_step:
  assumes s: "s = Schema_new cols ub" and fa: "fixed_area_size s < 4294967296"
    and inv: "tb_inv s V D vl tb" and j: "j < length cols"
    and ty: "col_type (cols ! j) = ty" and sz: "col_size (cols ! j) = n"
    and en: "\<And>rw vr. cell s rw j = le_bytes n (unat v) \<Longrightarrow> encoded s rw vr j (V ! j)"
  shows "fst (set_fixed ty n tb j v) = kOk \<and> tb_inv s V (insert j D) vl (snd (set_fixed ty n tb j v))"
proof -
  have c: "columns s = cols" by (simp add: s Schema_new_fields)
  from inv have ts: "tb_schema tb = s" and r: "length (tb_row tb) = fixed_area_size s"
    by (simp_all add: tb_inv_def)
  have fo: "FixedOffsetOf s j = cell_off s j"
    using Schema_new_layout(3)[of cols ub j] fa j s by simp
  have fit: "cell_off s j + n \<le> length (tb_row tb)"
    using cell_in_fixed_area[OF j, of ub] sz r s by simp
  have "cell s (write_at (tb_row tb) (cell_off s j) (le_bytes n (unat v))) j = le_bytes n (unat v)"
    using read_write_same[of "cell_off s j" "le_bytes n (unat v)" "tb_row tb"] fit sz c
    by (simp add: cell_def)
  from en[OF this] have e: "encoded s (write_at (tb_row tb) (cell_off s j) (le_bytes n (unat v)))
     (tb_var tb @ []) j (V ! j)" .
  have l: "length (le_bytes n (unat v)) = col_size (cols ! j)" using sz by simp
  from tb_inv_write[OF s inv j l e] show ?thesis
    using j ty c ts fo by (simp add: set_fixed_def ColumnCount_def Let_def)
qed

lemma SetChar_step:
  assumes s: "s = Schema_new cols ub" and fa: "fixed_area_size s < 4294967296"
    and inv: "tb_inv s V D vl tb" and j: "j < length cols"
    and ty: "col_type (cols ! j) = CHAR_N" and v: "V ! j = VChar bs"
  shows "fst (SetChar tb j bs) = kOk \<and> tb_inv s V (insert j D) vl (snd (SetChar tb j bs))"
proof -
  have c: "columns s = cols" by (simp add: s Schema_new_fields)
  from inv have ts: "tb_schema tb = s" and r: "length (tb_row tb) = fixed_area_size s"
    by (simp_all add: tb_inv_def)
  have fo: "FixedOffsetOf s j = cell_off s j"
    using Schema_new_layout(3)[of cols ub j] fa j s by simp
  let ?N = "col_len (cols ! j)"
  have sz: "col_size (cols ! j) = ?N" "FixedSizeOf s j = ?N"
    using ty c by (simp_all add: col_size_def FixedSizeOf_def FixedSizeOfType_def)
  let ?buf = "take (min ?N (length bs)) bs @ replicate (?N - min ?N (length bs)) (0::byte)"
  have b: "?buf = take ?N bs @ replicate (?N - length bs) 0"
    by (cases "?N \<le> length bs") (simp_all add: min_def)
  have l: "length ?buf = col_size (cols ! j)" using sz by (simp add: min_def)
  have fit: "cell_off s j + length ?buf \<le> length (tb_row tb)"
    using cell_in_fixed_area[OF j, of ub] l r s by simp
  have "cell s (write_at (tb_row tb) (cell_off s j) ?buf) j = ?buf"
    using read_write_same[OF fit] l c by (simp add: cell_def)
  then have e: "encoded s (write_at (tb_row tb) (cell_off s j) ?buf) (tb_var tb @ []) j (V ! j)"
    using v b c by simp
  from tb_inv_write[OF s inv j l e] show ?thesis
    using j ty c ts fo sz by (simp add: SetChar_def ColumnCount_def Let_def)
qed

lemma SetVarChar_step:
  assumes s: "s = Schema_new cols ub"
    and inv: "tb_inv s V D vl tb" and j: "j < length cols"
    and ty: "col_type (cols ! j) = VARCHAR" and v: "V ! j = VVarChar bs"
    and fitv: "length bs \<le> col_len (cols ! j)"
    and small: "fixed_area_size s + vl + length bs \<le> 65535"
  shows "fst (SetVarChar tb j bs) = kOk \<and>
         tb_inv s V (insert j D) (vl + length bs) (snd (SetVarChar tb j bs))"
proof -
  have c: "columns s = cols" by (simp add: s Schema_new_fields)
  from small have fa: "fixed_area_size s < 4294967296" by simp
  from inv have ts: "tb_schema tb = s" and r: "length (tb_row tb) = fixed_area_size s"
    and lv: "length (tb_var tb) = vl"
    by (simp_all add: tb_inv_def)
  have fo: "FixedOffsetOf s j = cell_off s j"
    using Schema_new_layout(3)[of cols ub j] fa j s by simp
  have sz: "col_size (cols ! j) = 4"
    using ty by (simp add: col_size_def FixedSizeOfType_def)
  define voff where "voff = fixed_area_size s + length (tb_var tb)"
  from small lv have m: "voff mod 65536 = voff" "length bs mod 65536 = length bs"
    by (simp_all add: voff_def)
  let ?src = "le_bytes 2 voff @ le_bytes 2 (length bs)"
  have l: "length ?src = col_size (cols ! j)" using sz by simp
  have fit: "cell_off s j + length ?src \<le> length (tb_row tb)"
    using cell_in_fixed_area[OF j, of ub] l r s by simp
  have tw: "write_at (write_at (tb_row tb) (cell_off s j) (le_bytes 2 voff)) (cell_off s j + 2)
              (le_bytes 2 (length bs)) = write_at (tb_row tb) (cell_off s j) ?src"
    using write_at_twice[of "cell_off s j" "le_bytes 2 voff" "le_bytes 2 (length bs)" "tb_row tb"] fit
    by simp
  have "cell s (write_at (tb_row tb) (cell_off s j) ?src) j = ?src"
    using read_write_same[OF fit] l c by (simp add: cell_def)
  moreover have "fixed_area_size s \<le> voff" "voff < 65536" "length bs < 65536"
    "voff - fixed_area_size s + length bs \<le> length (tb_var tb @ bs)"
    "take (length bs) (drop (voff - fixed_area_size s) (tb_var tb @ bs)) = bs"
    using small lv by (simp_all add: voff_def)
  ultimately have e: "encoded s (write_at (tb_row tb) (cell_off s j) ?src) (tb_var tb @ bs) j (V ! j)"
    unfolding v encoded.simps by blast
  from tb_inv_write[OF s inv j l e] show ?thesis
    using j ty c ts fo fitv m tw
    by (simp add: SetVarChar_def ColumnCount_def Let_def voff_def[symmetric])
qed

lemma set_value_step:
  assumes s: "s = Schema_new cols ub"
    and inv: "tb_inv s V D vl tb" and j: "j < length cols"
    and vf: "value_fits (cols ! j) (V ! j)"
    and small: "fixed_area_size s + vl + var_size (V ! j) \<le> 65535"
  shows "fst (set_value tb j (V ! j)) = kOk \<and>
         tb_inv s V (insert j D) (vl + var_size (V ! j)) (snd (set_value tb j (V ! j)))"
proof -
  from small have fa: "fixed_area_size s < 4294967296" by simp
  show ?thesis
  proof (cases "V ! j")
    case (VInt32 w)
    with vf have ty: "col_type (cols ! j) = INT32" by simp
    then have sz: "col_size (cols ! j) = 4" by (simp add: col_size_def FixedSizeOfType_def)
    from set_fixed_step[OF s fa inv j ty sz, of w] VInt32 show ?thesis
      by (simp add: SetInt32_def)
  next
    case (VInt64 w)
    with vf have ty: "col_type (cols ! j) = INT64" by simp
    then have sz: "col_size (cols ! j) = 8" by (simp add: col_size_def FixedSizeOfType_def)
    from set_fixed_step[OF s fa inv j ty sz, of w] VInt64 show ?thesis
      by (simp add: SetInt64_def)
  next
    case (VFloat w)
    with vf have ty: "col_type (cols ! j) = FLOAT" by simp
    then have sz: "col_size (cols ! j) = 4" by (simp add: col_size_def FixedSizeOfType_def)
    from set_fixed_step[OF s fa inv j ty sz, of w] VFloat show ?thesis
      by (simp add: SetFloat_def)
  next
    case (VDouble w)
    with vf have ty: "col_type (cols ! j) = DOUBLE" by simp
    then have sz: "col_size (cols ! j) = 8" by (simp add: col_size_def FixedSizeOfType_def)
    from set_fixed_step[OF s fa inv j ty sz, of w] VDouble show ?thesis
      by (simp add: SetDouble_def)
  next
    case (VDate w)
    with vf have ty: "col_type (cols ! j) = DATE" by simp
    then have sz: "col_size (cols ! j) = 4" by (simp add: col_size_def FixedSizeOfType_def)
    from set_fixed_step[OF s fa inv j ty sz, of w] VDate show ?thesis
      by (simp add: SetDate_def)
  next
    case (VChar bs)
    with vf have ty: "col_type (cols ! j) = CHAR_N" by simp
    from SetChar_step[OF s fa inv j ty VChar] VChar show ?thesis by simp
  next
    case (VVarChar bs)
    with vf have ty: "col_type (cols ! j) = VARCHAR" and f: "length bs \<le> col_len (cols ! j)"
      by simp_all
    from small VVarChar have sm: "fixed_area_size s + vl + length bs \<le> 65535" by simp
    from SetVarChar_step[OF s inv j ty VVarChar f sm] VVarChar show ?thesis by simp
  qed
qed

lemma tb_inv_new: "tb_inv (Schema_new cols ub) V {} 0 (TupleBuilder_new (Schema_new cols ub))"
  by (simp add: tb_inv_def TupleBuilder_new_def ColumnCount_def Schema_new_layout(2))

lemma set_columns_inv:
  assumes s: "s = Schema_new cols ub"
    and inv: "tb_inv s V D vl tb"
    and ok: "\<forall>j\<in>set js. j < length cols \<and> value_fits (cols ! j) (V ! j)"
    and small: "fixed_area_size s + vl + var_total V js \<le> 65535"
  shows "fst (set_columns V js tb) \<and>
         tb_inv s V (D \<union> set js) (vl + var_total V js) (snd (set_columns V js tb))"
  using inv ok small
proof (induction js arbitrary: tb D vl)
  case Nil
  then show ?case by (simp add: var_total_def)
next
  case (Cons j js)
  from Cons.prems(2) have j: "j < length cols" "value_fits (cols ! j) (V ! j)" by simp_all
  from Cons.prems(3) have sm: "fixed_area_size s + vl + var_size (V ! j) \<le> 65535"
    by (simp add: var_total_def)
  obtain st tb1 where sv: "set_value tb j (V ! j) = (st, tb1)" by (cases "set_value tb j (V ! j)")
  from set_value_step[OF s Cons.prems(1) j sm] sv
  have st: "st = kOk" and i1: "tb_inv s V (insert j D) (vl + var_size (V ! j)) tb1" by simp_all
  from Cons.prems(2) have ok': "\<forall>j\<in>set js. j < length cols \<and> value_fits (cols ! j) (V ! j)" by simp
  from Cons.prems(3) have sm': "fixed_area_size s + (vl + var_size (V ! j)) + var_total V js \<le> 65535"
    by (simp add: var_total_def)
  have u: "insert j D \<union> set js = D \<union> set (j # js)" by auto
  have t: "vl + var_size (V ! j) + var_total V js = vl + var_total V (j # js)"
    by (simp add: var_total_def)
  from Cons.IH[OF i1 ok' sm'] have "fst (set_columns V js tb1)"
    and "tb_inv s V (D \<union> set (j # js)) (vl + var_total V (j # js)) (snd (set_columns V js tb1))"
    unfolding u t by simp_all
  with sv st show ?case by (simp add: split_beta)
qed

lemma read_fixed_take: "k \<le> n \<Longrightarrow> read_fixed buf off0 k = take k (read_fixed buf off0 n)"
  by (simp add: read_fixed_def min_def)

lemma read_fixed_drop: "read_fixed buf (off0 + k) (n - k) = drop k (read_fixed buf off0 n)"
  by (simp add: read_fixed_def drop_take add.commute)

lemma IsNull_built:
  assumes s: "s = Schema_new cols ub" and inv: "tb_inv s V D vl tb" and i: "i < length cols"
  shows "\<not> IsNull s (tb_row tb @ tb_var tb) i"
proof (cases "use_null_bitmap s \<and> \<not> (null_bytes s = 0 \<or> length (tb_row tb @ tb_var tb) < null_bytes s)")
  case False
  then show ?thesis by (auto simp: IsNull_def)
next
  case True
  then have ub: "ub" using s by (simp add: Schema_new_fields)
  then have nb: "null_bytes s = (length cols + 7) div 8" using s by (simp add: Schema_new_fields)
  with i have k: "i div 8 < null_bytes s" by simp
  from inv have r: "length (tb_row tb) = fixed_area_size s" and z: "tb_row tb ! (i div 8) = 0"
    using k by (simp_all add: tb_inv_def)
  have "null_bytes s \<le> fixed_area_size s" using s by (simp add: Schema_new_layout(2))
  with k r have "(tb_row tb @ tb_var tb) ! (i div 8) = tb_row tb ! (i div 8)"
    by (simp add: nth_append)
  with z True show ?thesis by (simp add: IsNull_def)
qed

lemma getters_built:
  assumes s: "s = Schema_new cols ub" and fa: "fixed_area_size s < 4294967296"
    and inv: "tb_inv s V D vl tb" and i: "i < length cols" and d: "i \<in> D"
    and vf: "value_fits (cols ! i) (V ! i)"
  shows "getter_returns s (tb_row tb @ tb_var tb) i (V ! i)"
proof -
  let ?t = "tb_row tb @ tb_var tb"
  have c: "columns s = cols" by (simp add: s Schema_new_fields)
  have nn: "\<not> IsNull s ?t i" by (rule IsNull_built[OF s inv i])
  have gc: "GetColumn s i = Some (cols ! i)" using i c by (simp add: GetColumn_def)
  have fo: "FixedOffsetOf s i = cell_off s i"
    using Schema_new_layout(3)[of cols ub i] fa i s by simp
  from inv have r: "length (tb_row tb) = fixed_area_size s" by (simp add: tb_inv_def)
  have fit: "cell_off s i + col_size (cols ! i) \<le> length (tb_row tb)"
    using cell_in_fixed_area[OF i, of ub] r s by simp
  have rd: "read_fixed ?t (cell_off s i) (col_size (cols ! i)) = cell s (tb_row tb) i"
    using read_append_left[OF fit] c by (simp add: cell_def)
  from inv d have en: "encoded s (tb_row tb) (tb_var tb) i (V ! i)" by (simp add: tb_inv_def)
  show ?thesis
  proof (cases "V ! i")
    case (VInt32 w)
    with vf have ty: "col_type (cols ! i) = INT32" by simp
    then have sz: "col_size (cols ! i) = 4" by (simp add: col_size_def FixedSizeOfType_def)
    from en VInt32 rd sz have "read_fixed ?t (cell_off s i) 4 = le_bytes 4 (unat w)" by simp
    with nn gc ty fo VInt32 show ?thesis
      by (simp add: GetInt32_def get_fixed_def word32_roundtrip)
  next
    case (VInt64 w)
    with vf have ty: "col_type (cols ! i) = INT64" by simp
    then have sz: "col_size (cols ! i) = 8" by (simp add: col_size_def FixedSizeOfType_def)
    from en VInt64 rd sz have "read_fixed ?t (cell_off s i) 8 = le_bytes 8 (unat w)" by simp
    with nn gc ty fo VInt64 show ?thesis
      by (simp add: GetInt64_def get_fixed_def word64_roundtrip)
  next
    case (VFloat w)
    with vf have ty: "col_type (cols ! i) = FLOAT" by simp
    then have sz: "col_size (cols ! i) = 4" by (simp add: col_size_def FixedSizeOfType_def)
    from en VFloat rd sz have "read_fixed ?t (cell_off s i) 4 = le_bytes 4 (unat w)" by simp
    with nn gc ty fo VFloat show ?thesis
      by (simp add: GetFloat_def get_fixed_def word32_roundtrip)
  next
    case (VDouble w)
    with vf have ty: "col_type (cols ! i) = DOUBLE" by simp
    then have sz: "col_size (cols ! i) = 8" by (simp add: col_size_def FixedSizeOfType_def)
    from en VDouble rd sz have "read_fixed ?t (cell_off s i) 8 = le_bytes 8 (unat w)" by simp
    with nn gc ty fo VDouble show ?thesis
      by (simp add: GetDouble_def get_fixed_def word64_roundtrip)
  next
    case (VDate w)
    with vf have ty: "col_type (cols ! i) = DATE" by simp
    then have sz: "col_size (cols ! i) = 4" by (simp add: col_size_def FixedSizeOfType_def)
    from en VDate rd sz have "read_fixed ?t (cell_off s i) 4 = le_bytes 4 (unat w)" by simp
    with nn gc ty fo VDate show ?thesis
      by (simp add: GetDate_def get_fixed_def word32_roundtrip)
  next
    case (VChar bs)
    with vf have ty: "col_type (cols ! i) = CHAR_N" by simp
    then have sz: "col_size (cols ! i) = col_len (cols ! i)" "FixedSizeOf s i = col_len (cols ! i)"
      using c by (simp_all add: col_size_def FixedSizeOf_def FixedSizeOfType_def)
    from en VChar rd sz c have "read_fixed ?t (cell_off s i) (col_len (cols ! i)) =
        take (col_len (cols ! i)) bs @ replicate (col_len (cols ! i) - length bs) 0" by simp
    with nn gc ty fo VChar sz c show ?thesis
      by (simp add: GetChar_def trim_zeros_pad)
  next
    case (VVarChar bs)
    with vf have ty: "col_type (cols ! i) = VARCHAR" by simp
    then have sz: "col_size (cols ! i) = 4" by (simp add: col_size_def FixedSizeOfType_def)
    from en VVarChar obtain voff where
      ce: "cell s (tb_row tb) i = le_bytes 2 voff @ le_bytes 2 (length bs)"
      and vo: "fixed_area_size s \<le> voff" "voff < 65536" "length bs < 65536"
        "voff - fixed_area_size s + length bs \<le> length (tb_var tb)"
        "take (length bs) (drop (voff - fixed_area_size s) (tb_var tb)) = bs"
      by auto
    from rd sz ce have r4: "read_fixed ?t (cell_off s i) 4 = le_bytes 2 voff @ le_bytes 2 (length bs)"
      by simp
    have "read_fixed ?t (cell_off s i) 2 = take 2 (read_fixed ?t (cell_off s i) 4)"
      by (rule read_fixed_take) simp
    with r4 have a: "read_fixed ?t (cell_off s i) 2 = le_bytes 2 voff" by simp
    have "read_fixed ?t (cell_off s i + 2) 2 = drop 2 (read_fixed ?t (cell_off s i) 4)"
      using read_fixed_drop[of ?t "cell_off s i" 2 4] by simp
    with r4 have b: "read_fixed ?t (cell_off s i + 2) 2 = le_bytes 2 (length bs)" by simp
    have va: "le_value (le_bytes 2 voff) = voff" "le_value (le_bytes 2 (length bs)) = length bs"
      using vo by (simp_all add: le_value_le_bytes)
    have bound: "voff + length bs \<le> length ?t" using vo r by simp
    have "take (length bs) (drop voff ?t) = bs" using vo r by simp
    with nn gc ty fo VVarChar a b va bound show ?thesis
      by (simp add: GetVarChar_def Let_def)
  qed
qed

subsection \<open>Record model: the claim\<close>

lemma le_bytes_2: "le_bytes 2 v = [of_nat (v mod 256), of_nat (v div 256 mod 256)]"
  by (simp add: numeral_2_eq_2)

lemma replicate_2: "replicate 2 x = [x, x]"
  by (simp add: numeral_2_eq_2)

lemma wide_layout: "Schema_new wide_columns False =
   \<lparr> columns = wide_columns, use_null_bitmap = False, null_bytes = 0,
     fixed_area_size = 65536, fixed_offsets = [0, 65532], fixed_sizes = [65532, 4] \<rparr>"
  by (simp add: Schema_new_def wide_columns_def FixedSizeOfType_def Let_def)

lemma small_layout: "Schema_new small_columns True =
   \<lparr> columns = small_columns, use_null_bitmap = True, null_bytes = 1,
     fixed_area_size = 13, fixed_offsets = [1, 5, 9], fixed_sizes = [4, 4, 4] \<rparr>"
  by (simp add: Schema_new_def small_columns_def FixedSizeOfType_def Let_def)

text \<open>
  Claim C9 as stated fails when the row does not fit the 16-bit offsets of a
  \<^verbatim>\<open>VARCHAR\<close> cell. With a \<^verbatim>\<open>CHAR(65532)\<close> column before a \<^verbatim>\<open>VARCHAR(10)\<close> column the fixed
  area is 65536 bytes long, \<^verbatim>\<open>SetVarChar\<close> stores the offset \<open>65536 mod 2^16 = 0\<close>, every
  setter and \<^verbatim>\<open>Build\<close> succeed on schema-valid values, and \<^verbatim>\<open>GetVarChar\<close> returns the
  first two bytes of the row instead of the value that was set.
\<close>

theorem varchar_offset_wraps_in_wide_row:
  "value_fits (wide_columns ! 0) (VChar []) \<and>
   value_fits (wide_columns ! 1) (VVarChar [97, 98]) \<and>
   fst (set_columns [VChar [], VVarChar [97, 98]] [0, 1]
          (TupleBuilder_new (Schema_new wide_columns False))) \<and>
   Build wide_builder = Inr (tb_row wide_builder @ tb_var wide_builder) \<and>
   GetVarChar (Schema_new wide_columns False) (tb_row wide_builder @ tb_var wide_builder) 1
     = Some (Inr [0, 0])"
  unfolding wide_builder_def wide_layout
  by (simp add: TupleBuilder_new_def ColumnCount_def SetChar_def SetVarChar_def GetVarChar_def
        IsNull_def GetColumn_def Build_def FixedSizeOf_def FixedOffsetOf_def FixedSizeOfType_def
        wide_columns_def Let_def write_at_def read_fixed_def le_bytes_2 replicate_2)

text \<open>
  Claim C9 (amended). For every schema \<open>S\<close> (built by the constructor from any columns,
  with or without null bitmap) and every schema-valid value assignment \<open>V\<close> such that the
  fixed area plus the \<^verbatim>\<open>VARCHAR\<close> bytes set is at most 65535 bytes: setting the columns
  to their values in \<open>V\<close>, in any order \<open>js\<close> that covers every column, succeeds at every
  call, \<^verbatim>\<open>Build\<close> succeeds, and on the tuple each getter returns the value of \<open>V\<close>: the
  integer, date and floating-point getters the same bits, \<^verbatim>\<open>GetChar\<close> the value cut to
  \<open>N\<close> bytes with trailing zero bytes trimmed, \<^verbatim>\<open>GetVarChar\<close> the value exactly.
\<close>

theorem TupleBuilder_roundtrip:
  fixes cols :: "Column list" and ub :: bool and V :: "Value list" and js :: "nat list"
  defines "s \<equiv> Schema_new cols ub"
  defines "tb \<equiv> snd (set_columns V js (TupleBuilder_new s))"
  assumes fits: "\<forall>i<length cols. value_fits (cols ! i) (V ! i)"
    and all: "set js = {..<length cols}"
    and small: "fixed_area_size s + var_total V js \<le> 65535"
  shows "fst (set_columns V js (TupleBuilder_new s)) \<and>
         Build tb = Inr (tb_row tb @ tb_var tb) \<and>
         (\<forall>i<length cols. getter_returns s (tb_row tb @ tb_var tb) i (V ! i))"
proof -
  have ok: "\<forall>j\<in>set js. j < length cols \<and> value_fits (cols ! j) (V ! j)"
    using fits all by simp
  from small have sm: "fixed_area_size s + 0 + var_total V js \<le> 65535" by simp
  have sd: "s = Schema_new cols ub" by (simp add: s_def)
  from set_columns_inv[OF sd tb_inv_new[of cols ub V, folded s_def] ok sm]
  have f: "fst (set_columns V js (TupleBuilder_new s))"
    and inv: "tb_inv s V (set js) (var_total V js) tb"
    by (simp_all add: tb_def)
  have c: "columns s = cols" by (simp add: s_def Schema_new_fields)
  from inv all c have "\<forall>i \<in> set [0..<ColumnCount (tb_schema tb)]. tb_set tb ! i"
    by (simp add: tb_inv_def ColumnCount_def)
  then have b: "Build tb = Inr (tb_row tb @ tb_var tb)" by (simp add: Build_def)
  from small have fa: "fixed_area_size s < 4294967296" by simp
  have g: "\<forall>i<length cols. getter_returns s (tb_row tb @ tb_var tb) i (V ! i)"
  proof (intro allI impI)
    fix i assume i: "i < length cols"
    with all have d: "i \<in> set js" by simp
    from fits i have vf: "value_fits (cols ! i) (V ! i)" by simp
    from getters_built[OF sd fa inv i d vf]
    show "getter_returns s (tb_row tb @ tb_var tb) i (V ! i)" .
  qed
  from f b g show ?thesis by blast
qed

theorem TupleBuilder_roundtrip_witness:
  "fst (set_columns small_values [2, 0, 1] (TupleBuilder_new (Schema_new small_columns True))) \<and>
   Build small_builder = Inr (tb_row small_builder @ tb_var small_builder) \<and>
   GetInt32 (Schema_new small_columns True) (tb_row small_builder @ tb_var small_builder) 0
     = Some (Inr 42) \<and>
   GetChar (Schema_new small_columns True) (tb_row small_builder @ tb_var small_builder) 1
     = Some (Inr [97, 98]) \<and>
   GetVarChar (Schema_new small_columns True) (tb_row small_builder @ tb_var small_builder) 2
     = Some (Inr [104, 101, 121])"
proof -
  have fits: "\<forall>i<length small_columns. value_fits (small_columns ! i) (small_values ! i)"
    by (simp add: small_columns_def small_values_def less_Suc_eq numeral_3_eq_3 all_conj_distrib)
  have all: "set [2, 0, 1] = {..<length small_columns}"
    by (auto simp: small_columns_def)
  have small: "fixed_area_size (Schema_new small_columns True) + var_total small_values [2, 0, 1] \<le> 65535"
    by (simp add: small_layout var_total_def small_values_def)
  note r = TupleBuilder_roundtrip[OF fits all small, folded small_builder_def]
  from r have g: "getter_returns (Schema_new small_columns True)
        (tb_row small_builder @ tb_var small_builder) i (small_values ! i)" if "i < 3" for i
    using that by (simp add: small_columns_def)
  from g[of 0] g[of 1] g[of 2] r show ?thesis
    by (simp add: small_values_def small_columns_def Schema_new_fields trim_zeros_def)
qed

section \<open>Disk manager (disk\_manager.h, disk\_manager\_posix.cc)\<close>

text \<open>
  The segment file as the list of its pages (\<^verbatim>\<open>PageCount\<close> is its length; the file size is
  taken to be a multiple of the page size). The outcome of a system call is the
  environment's: \<open>write_fails pid\<close> says that the first \<^verbatim>\<open>pwrite\<close> of \<^verbatim>\<open>WritePage(pid)\<close> fails
  (with an error other than \<^verbatim>\<open>EINTR\<close>), so that nothing of the page is written, and
  \<open>resize_fails\<close> that \<^verbatim>\<open>ftruncate\<close> fails, which leaves the file as it was. Reads fail only
  beyond the end of the file.
\<close>

record Disk =
  pages :: "Page list"
  write_fails :: "nat \<Rightarrow> bool"
  resize_fails :: bool

text \<open>A page of zero bytes, as \<^verbatim>\<open>ftruncate\<close> and \<^verbatim>\<open>memset\<close> produce it.\<close>

definition zero_page :: Page where
  "zero_page =
     \<lparr> page_id = 0, page_lsn = 0, slot_count = 0, free_off = 0, free_size = 0, checksum = 0,
       format_version = 0, dir = (\<lambda>_. \<lparr> off = 0, len = 0 \<rparr>), mem = (\<lambda>_. 0),
       compact_calls = 0 \<rparr>"

definition DiskPageCount :: "Disk \<Rightarrow> nat" where
  "DiskPageCount d = length (pages d)"

definition ReadPage :: "Disk \<Rightarrow> nat \<Rightarrow> StatusCode + Page" where
  "ReadPage d pid = (if pid < length (pages d) then Inr (pages d ! pid) else Inl kNotFound)"


text \<open>\<^verbatim>\<open>EnsureCapacityFor(pid)\<close> grows the file until it holds page \<open>pid\<close>.\<close>

definition EnsureCapacityFor :: "Disk \<Rightarrow> nat \<Rightarrow> StatusCode \<times> Disk" where
  "EnsureCapacityFor d pid =
     (if length (pages d) \<ge> pid + 1 then (kOk, d)
      else if resize_fails d then (kIOError, d)
      else (kOk, d\<lparr> pages := pages d @ replicate (pid + 1 - length (pages d)) zero_page \<rparr>))"

text \<open>
  \<^verbatim>\<open>WritePage\<close> with a non-null buffer: the file is grown first, and stays grown when the
  write then fails.
\<close>

definition WritePage :: "Disk \<Rightarrow> nat \<Rightarrow> Page \<Rightarrow> StatusCode \<times> Disk" where
  "WritePage d pid buf =
     (let (s, d1) = EnsureCapacityFor d pid in
      if s \<noteq> kOk then (s, d1)
      else if write_fails d1 pid then (kIOError, d1)
      else (kOk, d1\<lparr> pages := (pages d1)[pid := buf] \<rparr>))"

section \<open>Buffer pool (frame.h, page\_table.h, replacer.h, buffer\_pool\_manager.cc)\<close>

text \<open>
  \<^verbatim>\<open>struct Frame\<close>; \<open>frame_data\<close> is the page-sized slice of the arena behind the pointer
  \<^verbatim>\<open>data\<close>. The latch is not modelled.
\<close>

record Frame =
  frame_page_id :: nat
  pin_count :: int
  dirty :: bool
  frame_data :: Page

record BufferStats =
  hits :: nat
  misses :: nat
  evictions :: nat
  flushes :: nat

text \<open>
  The interface \<^verbatim>\<open>IReplacer\<close> as a record of the methods of an implementation over its
  state \<open>'r\<close>; \<open>rVictim\<close> returns the frame written to \<^verbatim>\<open>*out\<close>, or \<open>None\<close> for \<^verbatim>\<open>false\<close>.
\<close>

record 'r IReplacer =
  rPin :: "'r \<Rightarrow> nat \<Rightarrow> 'r"
  rUnpin :: "'r \<Rightarrow> nat \<Rightarrow> 'r"
  rVictim :: "'r \<Rightarrow> nat option \<times> 'r"
  rSize :: "'r \<Rightarrow> nat"

definition ClockOps :: "ClockReplacer IReplacer" where
  "ClockOps = \<lparr> rPin = ClockPin, rUnpin = ClockUnpin, rVictim = ClockVictim, rSize = ClockSize \<rparr>"

text \<open>
  \<^verbatim>\<open>BufferPoolManager::Impl\<close>. The page table is the map \<open>table\<close>; \<open>free_list\<close> is the deque,
  front first. The flush callback only observes: \<open>flush_cb\<close> says whether one is
  registered and \<open>flush_log\<close> lists the \<open>(page_id, page_lsn)\<close> it was called with. The disk
  manager is shared with the segment manager and is passed beside the pool.
\<close>

record 'r BufferPoolManager =
  frames :: "Frame list"
  table :: "nat \<rightharpoonup> nat"
  free_list :: "nat list"
  num_frames :: nat
  bpm_page_size :: nat
  replacer :: 'r
  stats :: BufferStats
  flush_cb :: bool
  flush_log :: "(nat \<times> nat) list"

definition BufferPoolManager_new :: "nat \<Rightarrow> nat \<Rightarrow> 'r \<Rightarrow> 'r BufferPoolManager" where
  "BufferPoolManager_new n page_size r =
     \<lparr> frames = replicate n \<lparr> frame_page_id = kInvalidPageId, pin_count = 0, dirty = False,
                               frame_data = zero_page \<rparr>,
       table = Map.empty, free_list = [0..<n], num_frames = n, bpm_page_size = page_size,
       replacer = r, stats = \<lparr> hits = 0, misses = 0, evictions = 0, flushes = 0 \<rparr>,
       flush_cb = False, flush_log = [] \<rparr>"

definition LookupFrame :: "'r BufferPoolManager \<Rightarrow> nat \<Rightarrow> nat option" where
  "LookupFrame bpm pid = table bpm pid"

definition FlushFrame ::
  "'r BufferPoolManager \<times> Disk \<Rightarrow> nat \<Rightarrow> bool \<times> 'r BufferPoolManager \<times> Disk" where
  "FlushFrame st fid =
     (let (bpm, disk) = st; f = frames bpm ! fid in
      if \<not> dirty f \<or> frame_page_id f = kInvalidPageId then (False, bpm, disk)
      else
        let bpm1 = (if flush_cb bpm
                    then bpm\<lparr> flush_log := flush_log bpm
                                  @ [(frame_page_id f, page_lsn (frame_data f))] \<rparr>
                    else bpm);
            (s, disk1) = WritePage disk (frame_page_id f) (frame_data f)
        in if s \<noteq> kOk then (False, bpm1, disk1)
           else (True, bpm1\<lparr> frames := (frames bpm1)[fid := f\<lparr> dirty := False \<rparr>] \<rparr>, disk1))"

text \<open>
  \<^verbatim>\<open>AcquireFrameFor\<close>: the frame to load into (\<open>None\<close> for \<^verbatim>\<open>-1\<close>), the page id written
  to \<^verbatim>\<open>*evicted_pid\<close>, and the state.
\<close>

definition AcquireFrameFor ::
  "'r IReplacer \<Rightarrow> 'r BufferPoolManager \<times> Disk \<Rightarrow> nat \<Rightarrow>
     nat option \<times> nat \<times> 'r BufferPoolManager \<times> Disk" where
  "AcquireFrameFor rep st pid =
     (let (bpm, disk) = st in
      case free_list bpm of
        fid # rest \<Rightarrow> (Some fid, kInvalidPageId, bpm\<lparr> free_list := rest \<rparr>, disk)
      | [] \<Rightarrow>
         (case rVictim rep (replacer bpm) of
            (None, r1) \<Rightarrow> (None, kInvalidPageId, bpm\<lparr> replacer := r1 \<rparr>, disk)
          | (Some victim, r1) \<Rightarrow>
              let bpm1 = bpm\<lparr> replacer := r1 \<rparr>;
                  old = frame_page_id (frames bpm1 ! victim)
              in if old \<noteq> kInvalidPageId then
                   let (flushed, bpm2, disk2) = FlushFrame (bpm1, disk) victim;
                       bpm3 = (if flushed
                               then bpm2\<lparr> stats := (stats bpm2)\<lparr> flushes := flushes (stats bpm2) + 1 \<rparr> \<rparr>
                               else bpm2);
                       bpm4 = bpm3\<lparr> table := (table bpm3)(old := None),
                                     stats := (stats bpm3)\<lparr> evictions := evictions (stats bpm3) + 1 \<rparr> \<rparr>
                   in (Some victim, old, bpm4, disk2)
                 else (Some victim, kInvalidPageId, bpm1, disk)))"

text \<open>
  \<^verbatim>\<open>FetchPage\<close>: the status, the frame whose data \<^verbatim>\<open>*out_data\<close> points to on success, and
  the state.
\<close>

definition FetchPage ::
  "'r IReplacer \<Rightarrow> 'r BufferPoolManager \<times> Disk \<Rightarrow> nat \<Rightarrow>
     StatusCode \<times> nat option \<times> 'r BufferPoolManager \<times> Disk" where
  "FetchPage rep st pid =
     (let (bpm, disk) = st in
      case LookupFrame bpm pid of
        Some fid \<Rightarrow>
          let f = frames bpm ! fid in
          (kOk, Some fid,
           bpm\<lparr> frames := (frames bpm)[fid := f\<lparr> pin_count := pin_count f + 1 \<rparr>],
                 replacer := rPin rep (replacer bpm) fid,
                 stats := (stats bpm)\<lparr> hits := hits (stats bpm) + 1 \<rparr> \<rparr>,
           disk)
      | None \<Rightarrow>
         (case AcquireFrameFor rep (bpm, disk) pid of
            (None, evicted, bpm1, disk1) \<Rightarrow> (kUnavailable, None, bpm1, disk1)
          | (Some fid, evicted, bpm1, disk1) \<Rightarrow>
              let f = frames bpm1 ! fid in
              (case ReadPage disk1 pid of
                 Inl s \<Rightarrow>
                   (s, None,
                    bpm1\<lparr> frames := (frames bpm1)[fid := f\<lparr> frame_page_id := kInvalidPageId,
                                                              pin_count := 0, dirty := False \<rparr>],
                           free_list := fid # free_list bpm1 \<rparr>,
                    disk1)
               | Inr buf \<Rightarrow>
                   (kOk, Some fid,
                    bpm1\<lparr> frames := (frames bpm1)[fid := \<lparr> frame_page_id = pid, pin_count = 1,
                                                            dirty = False, frame_data = buf \<rparr>],
                           table := (table bpm1)(pid \<mapsto> fid),
                           replacer := rPin rep (replacer bpm1) fid,
                           stats := (stats bpm1)\<lparr> misses := misses (stats bpm1) + 1 \<rparr> \<rparr>,
                    disk1))))"

text \<open>\<^verbatim>\<open>NewPage\<close>: the status, the new page id and its frame on success, and the state.\<close>

definition NewPage ::
  "'r IReplacer \<Rightarrow> 'r BufferPoolManager \<times> Disk \<Rightarrow>
     StatusCode \<times> (nat \<times> nat) option \<times> 'r BufferPoolManager \<times> Disk" where
  "NewPage rep st =
     (case AcquireFrameFor rep st 0 of
        (None, evicted, bpm1, disk1) \<Rightarrow> (kUnavailable, None, bpm1, disk1)
      | (Some fid, evicted, bpm1, disk1) \<Rightarrow>
          let pid = DiskPageCount disk1 mod 4294967296;
              bpm2 = bpm1\<lparr> frames := (frames bpm1)[fid := \<lparr> frame_page_id = pid, pin_count = 1,
                                                             dirty = False, frame_data = zero_page \<rparr>],
                            table := (table bpm1)(pid \<mapsto> fid),
                            replacer := rPin rep (replacer bpm1) fid \<rparr>;
              (s, disk2) = WritePage disk1 pid zero_page
          in (kOk, Some (pid, fid), bpm2, disk2))"

definition UnpinFrame ::
  "'r IReplacer \<Rightarrow> 'r BufferPoolManager \<Rightarrow> nat \<Rightarrow> bool \<Rightarrow> StatusCode \<times> 'r BufferPoolManager" where
  "UnpinFrame rep bpm fid is_dirty =
     (let f = frames bpm ! fid in
      if pin_count f \<le> 0 then (kInvalidArgument, bpm)
      else
        let f1 = f\<lparr> pin_count := pin_count f - 1, dirty := (dirty f \<or> is_dirty) \<rparr>;
            bpm1 = bpm\<lparr> frames := (frames bpm)[fid := f1] \<rparr>
        in (kOk, if pin_count f1 = 0
                 then bpm1\<lparr> replacer := rUnpin rep (replacer bpm1) fid \<rparr> else bpm1))"

definition UnpinPage ::
  "'r IReplacer \<Rightarrow> 'r BufferPoolManager \<Rightarrow> nat \<Rightarrow> bool \<Rightarrow> StatusCode \<times> 'r BufferPoolManager" where
  "UnpinPage rep bpm pid is_dirty =
     (case LookupFrame bpm pid of
        None \<Rightarrow> (kNotFound, bpm)
      | Some fid \<Rightarrow> UnpinFrame rep bpm fid is_dirty)"

definition FlushPage ::
  "'r BufferPoolManager \<times> Disk \<Rightarrow> nat \<Rightarrow> StatusCode \<times> 'r BufferPoolManager \<times> Disk" where
  "FlushPage st pid =
     (let (bpm, disk) = st in
      case LookupFrame bpm pid of
        None \<Rightarrow> (kNotFound, bpm, disk)
      | Some fid \<Rightarrow>
          let (flushed, bpm1, disk1) = FlushFrame (bpm, disk) fid
          in (kOk,
              if flushed then bpm1\<lparr> stats := (stats bpm1)\<lparr> flushes := flushes (stats bpm1) + 1 \<rparr> \<rparr>
              else bpm1,
              disk1))"

definition FlushAll :: "'r BufferPoolManager \<times> Disk \<Rightarrow> 'r BufferPoolManager \<times> Disk" where
  "FlushAll st =
     fold (\<lambda>fid s. let (flushed, bpm1, disk1) = FlushFrame s fid in (bpm1, disk1))
          [0..<num_frames (fst st)] st"


subsection \<open>Buffer pool: an eviction whose flush fails\<close>

text \<open>
  A file of two pages on which every \<^verbatim>\<open>WritePage\<close> fails, and a pool of one frame over it
  after \<^verbatim>\<open>FetchPage(0)\<close> and \<^verbatim>\<open>UnpinPage(0, true)\<close>: the only frame holds page 0, dirty
  and unpinned, and is the Clock replacer's only candidate.
\<close>

definition stuck_disk :: Disk where
  "stuck_disk = \<lparr> pages = [InitNew 0 64, InitNew 1 64], write_fails = (\<lambda>_. True),
                   resize_fails = False \<rparr>"

definition one_frame_pool :: "ClockReplacer BufferPoolManager" where
  "one_frame_pool =
     (let (s1, f1, bpm1, disk1) =
            FetchPage ClockOps (BufferPoolManager_new 1 64 (ClockReplacer_new 1), stuck_disk) 0
      in snd (UnpinPage ClockOps bpm1 0 True))"

lemma one_frame_pool_eq:
  "one_frame_pool =
     \<lparr> frames = [\<lparr> frame_page_id = 0, pin_count = 0, dirty = True, frame_data = InitNew 0 64 \<rparr>],
       table = [0 \<mapsto> 0], free_list = [], num_frames = 1, bpm_page_size = 64,
       replacer = \<lparr> present = [True], ref = [True], hand = 0, cap = 1 \<rparr>,
       stats = \<lparr> hits = 0, misses = 1, evictions = 0, flushes = 0 \<rparr>,
       flush_cb = False, flush_log = [] \<rparr>"
  by (simp add: one_frame_pool_def FetchPage_def LookupFrame_def AcquireFrameFor_def
        BufferPoolManager_new_def ClockReplacer_new_def ReadPage_def stuck_disk_def
        UnpinPage_def UnpinFrame_def ClockOps_def ClockPin_def ClockUnpin_def Let_def)

lemma victim1: "ClockVictim \<lparr> present = [True], ref = [True], hand = 0, cap = 1 \<rparr>
   = (Some 0, \<lparr> present = [False], ref = [False], hand = 0, cap = 1 \<rparr>)"
  by code_simp

lemma victim1_Suc: "ClockVictim \<lparr> present = [True], ref = [True], hand = 0, cap = Suc 0 \<rparr>
   = (Some 0, \<lparr> present = [False], ref = [False], hand = 0, cap = Suc 0 \<rparr>)"
  using victim1 by simp

text \<open>
  Claim C3 does not hold of the code. \<^verbatim>\<open>FetchPage(1)\<close> on that pool picks the frame of the
  dirty page 0 and the write of page 0 fails, so \<^verbatim>\<open>FlushFrame\<close> returns \<^verbatim>\<open>false\<close> and leaves
  the frame dirty; \<^verbatim>\<open>AcquireFrameFor\<close>, whose comment says that the old page is flushed
  first, uses that result only to count the flush: the call still returns \<^verbatim>\<open>Ok\<close>, the
  mapping of page 0 is gone and the frame is bound to page 1.
\<close>

theorem failed_flush_still_evicts:
  "fst (FetchPage ClockOps (one_frame_pool, stuck_disk) 1) = kOk \<and>
   table one_frame_pool 0 = Some 0 \<and>
   dirty (frames one_frame_pool ! 0) \<and>
   frame_page_id (frames one_frame_pool ! 0) = 0 \<and>
   write_fails stuck_disk 0 \<and>
   table (fst (snd (snd (FetchPage ClockOps (one_frame_pool, stuck_disk) 1)))) 0 = None \<and>
   table (fst (snd (snd (FetchPage ClockOps (one_frame_pool, stuck_disk) 1)))) 1 = Some 0 \<and>
   frame_page_id (frames (fst (snd (snd (FetchPage ClockOps (one_frame_pool, stuck_disk) 1)))) ! 0) = 1"
  unfolding one_frame_pool_eq
  by (simp add: FetchPage_def LookupFrame_def AcquireFrameFor_def FlushFrame_def WritePage_def
        EnsureCapacityFor_def ReadPage_def stuck_disk_def ClockOps_def victim1_Suc ClockPin_def
        Let_def)

section \<open>Segment manager (segment\_manager.h, segment\_manager.cc)\<close>


definition FreePage :: "nat list \<Rightarrow> nat \<Rightarrow> nat list" where
  "FreePage free pid = free @ [pid]"


section \<open>Table heap (table\_heap.h, table\_heap.cc)\<close>

text \<open>
  A \<^verbatim>\<open>TableHeap\<close> holds pointers to the buffer pool, the free space manager and the segment
  manager; the record below holds the objects behind them. \<open>th_disk\<close> is the segment's file,
  which the buffer pool and the segment manager share, and \<open>th_sm_free\<close> the segment's
  free stack. A \<^verbatim>\<open>Tuple\<close> is its byte vector and a \<^verbatim>\<open>RID\<close> the pair of page id and slot.
\<close>

type_synonym RID = "nat \<times> nat"

record 'r TableHeap =
  th_page_size :: nat
  th_bpm :: "'r BufferPoolManager"
  th_fsm :: FreeSpaceManager
  th_disk :: Disk
  th_sm_free :: "nat list"

text \<open>
  \<^verbatim>\<open>bpm_->FetchPage\<close> and \<^verbatim>\<open>bpm_->UnpinPage\<close> on the heap's pool and file; the page behind the
  pointer \<^verbatim>\<open>data\<close> that \<^verbatim>\<open>FetchPage\<close> hands out is the data of the frame, read by \<open>heap_page\<close>
  and written by \<open>heap_set_page\<close>.
\<close>

definition heap_fetch ::
  "'r IReplacer \<Rightarrow> 'r TableHeap \<Rightarrow> nat \<Rightarrow> StatusCode \<times> nat option \<times> 'r TableHeap" where
  "heap_fetch rep h pid =
     (let (s, fo, bpm1, disk1) = FetchPage rep (th_bpm h, th_disk h) pid
      in (s, fo, h\<lparr> th_bpm := bpm1, th_disk := disk1 \<rparr>))"

definition heap_unpin :: "'r IReplacer \<Rightarrow> 'r TableHeap \<Rightarrow> nat \<Rightarrow> bool \<Rightarrow> 'r TableHeap" where
  "heap_unpin rep h pid is_dirty = h\<lparr> th_bpm := snd (UnpinPage rep (th_bpm h) pid is_dirty) \<rparr>"

definition heap_page :: "'r TableHeap \<Rightarrow> nat \<Rightarrow> Page" where
  "heap_page h fid = frame_data (frames (th_bpm h) ! fid)"

definition heap_set_page :: "'r TableHeap \<Rightarrow> nat \<Rightarrow> Page \<Rightarrow> 'r TableHeap" where
  "heap_set_page h fid pg =
     h\<lparr> th_bpm := (th_bpm h)\<lparr> frames := (frames (th_bpm h))
                      [fid := (frames (th_bpm h) ! fid)\<lparr> frame_data := pg \<rparr>] \<rparr> \<rparr>"


text \<open>\<^verbatim>\<open>UpdateFsmForPage(pid, page)\<close> with the page in frame \<open>fid\<close>.\<close>

definition UpdateFsmForPage :: "'r TableHeap \<Rightarrow> nat \<Rightarrow> nat \<Rightarrow> 'r TableHeap" where
  "UpdateFsmForPage h pid fid = h\<lparr> th_fsm := FsmUpdate (th_fsm h) pid (free_size (heap_page h fid)) \<rparr>"







text \<open>\<^verbatim>\<open>TableHeap::Erase(rid)\<close>.\<close>

definition TableHeapErase :: "'r IReplacer \<Rightarrow> 'r TableHeap \<Rightarrow> RID \<Rightarrow> StatusCode \<times> 'r TableHeap" where
  "TableHeapErase rep h rid =
     (case heap_fetch rep h (fst rid) of
        (s, None, h1) \<Rightarrow> (s, h1)
      | (s, Some fid, h1) \<Rightarrow>
          let (del, pg1) = Erase (th_page_size h1) (heap_page h1 fid) (snd rid);
              h2 = heap_set_page h1 fid pg1
          in if del = kOk then (del, heap_unpin rep (UpdateFsmForPage h2 (fst rid) fid) (fst rid) True)
             else (del, heap_unpin rep h2 (fst rid) False))"


section \<open>Table iterator (table\_iterator.h, table\_iterator.cc)\<close>













section \<open>The Clock replacer finds a victim\<close>

text \<open>
  A Clock replacer of capacity \<open>n\<close> is well formed when both flag vectors have \<open>n\<close> entries
  and the hand points into them; \<open>hand_dist n h p\<close> is the number of steps the hand takes
  from \<open>h\<close> to \<open>p\<close>.
\<close>

definition clock_ok :: "nat \<Rightarrow> ClockReplacer \<Rightarrow> bool" where
  "clock_ok n r \<longleftrightarrow> cap r = n \<and> length (present r) = n \<and> length (ref r) = n \<and> hand r < n"

definition hand_dist :: "nat \<Rightarrow> nat \<Rightarrow> nat \<Rightarrow> nat" where
  "hand_dist n h p = (if h \<le> p then p - h else p + n - h)"

lemma hand_dist_step:
  "h < n \<Longrightarrow> p < n \<Longrightarrow> p \<noteq> h \<Longrightarrow>
   hand_dist n ((h + 1) mod n) p = hand_dist n h p - 1 \<and> 0 < hand_dist n h p"
  by (cases "h + 1 = n") (auto simp: hand_dist_def)

lemma hand_dist_self: "h < n \<Longrightarrow> hand_dist n ((h + 1) mod n) h = n - 1"
  by (cases "h + 1 = n") (auto simp: hand_dist_def)

lemma hand_dist_less: "h < n \<Longrightarrow> p < n \<Longrightarrow> hand_dist n h p < n"
  by (auto simp: hand_dist_def)





text \<open>
  The sweep of \<^verbatim>\<open>Victim\<close> never returns a frame that is not a candidate, and with a candidate
  present it returns one within two rounds: the first round clears the reference bits up
  to the candidate, the second finds it.
\<close>

lemma victim_loop_safe:
  "clock_ok n r \<Longrightarrow> victim_loop k r = (res, r') \<Longrightarrow>
   clock_ok n r' \<and>
   (case res of None \<Rightarrow> present r' = present r
    | Some v \<Rightarrow> v < n \<and> present r ! v \<and> present r' = (present r)[v := False])"
proof (induction k arbitrary: r)
  case 0
  then show ?case by simp
next
  case (Suc k)
  from Suc.prems(1) have ok: "cap r = n" "length (present r) = n" "length (ref r) = n" "hand r < n"
    by (simp_all add: clock_ok_def)
  show ?case
  proof (cases "present r ! hand r \<and> \<not> ref r ! hand r")
    case True
    with Suc.prems(2) ok show ?thesis by (auto simp: clock_ok_def)
  next
    case False
    define r1 where "r1 = (if present r ! hand r
        then r\<lparr> ref := (ref r)[hand r := False], hand := (hand r + 1) mod cap r \<rparr>
        else r\<lparr> hand := (hand r + 1) mod cap r \<rparr>)"
    from False Suc.prems(2) have v: "victim_loop k r1 = (res, r')" by (auto simp: r1_def)
    from ok have ok1: "clock_ok n r1" and p1: "present r1 = present r"
      by (auto simp: clock_ok_def r1_def)
    from Suc.IH[OF ok1 v] p1 show ?thesis by (cases res) simp_all
  qed
qed

lemma victim_loop_live1:
  "clock_ok n r \<Longrightarrow> p < n \<Longrightarrow> present r ! p \<Longrightarrow> \<not> ref r ! p \<Longrightarrow> hand_dist n (hand r) p < k \<Longrightarrow>
   fst (victim_loop k r) \<noteq> None"
proof (induction k arbitrary: r)
  case 0
  then show ?case by simp
next
  case (Suc k)
  from Suc.prems(1) have ok: "cap r = n" "length (present r) = n" "length (ref r) = n" "hand r < n"
    by (simp_all add: clock_ok_def)
  show ?case
  proof (cases "present r ! hand r \<and> \<not> ref r ! hand r")
    case True
    then show ?thesis by simp
  next
    case False
    with Suc.prems have ne: "p \<noteq> hand r" by auto
    define r1 where "r1 = (if present r ! hand r
        then r\<lparr> ref := (ref r)[hand r := False], hand := (hand r + 1) mod cap r \<rparr>
        else r\<lparr> hand := (hand r + 1) mod cap r \<rparr>)"
    from False have v: "victim_loop (Suc k) r = victim_loop k r1" by (auto simp: r1_def)
    from ok have ok1: "clock_ok n r1" and p1: "present r1 = present r"
      and h1: "hand r1 = (hand r + 1) mod n"
      by (auto simp: clock_ok_def r1_def)
    from ne Suc.prems ok have r1p: "\<not> ref r1 ! p" by (auto simp: r1_def)
    from hand_dist_step[OF ok(4) Suc.prems(2) ne] Suc.prems(5) h1
    have "hand_dist n (hand r1) p < k" by arith
    from Suc.IH[OF ok1 Suc.prems(2) _ r1p this] p1 Suc.prems(3) v show ?thesis by simp
  qed
qed

lemma victim_loop_live:
  "clock_ok n r \<Longrightarrow> p < n \<Longrightarrow> present r ! p \<Longrightarrow> hand_dist n (hand r) p + n < k \<Longrightarrow>
   fst (victim_loop k r) \<noteq> None"
proof (induction k arbitrary: r)
  case 0
  then show ?case by simp
next
  case (Suc k)
  from Suc.prems(1) have ok: "cap r = n" "length (present r) = n" "length (ref r) = n" "hand r < n"
    by (simp_all add: clock_ok_def)
  show ?case
  proof (cases "present r ! hand r")
    case pr: True
    show ?thesis
    proof (cases "ref r ! hand r")
      case False
      with pr show ?thesis by simp
    next
      case True
      define r1 where "r1 = r\<lparr> ref := (ref r)[hand r := False], hand := (hand r + 1) mod cap r \<rparr>"
      from pr True have v: "victim_loop (Suc k) r = victim_loop k r1" by (simp add: r1_def)
      from ok have ok1: "clock_ok n r1" and p1: "present r1 ! hand r" and nr: "\<not> ref r1 ! hand r"
        and h1: "hand r1 = (hand r + 1) mod n"
        using pr by (auto simp: clock_ok_def r1_def)
      from Suc.prems(4) ok(4) have "n - 1 < k" by arith
      with hand_dist_self[OF ok(4)] h1 have "hand_dist n (hand r1) (hand r) < k" by simp
      from victim_loop_live1[OF ok1 ok(4) p1 nr this] v show ?thesis by simp
    qed
  next
    case False
    with Suc.prems have ne: "p \<noteq> hand r" by auto
    define r1 where "r1 = r\<lparr> hand := (hand r + 1) mod cap r \<rparr>"
    from False have v: "victim_loop (Suc k) r = victim_loop k r1" by (simp add: r1_def)
    from ok have ok1: "clock_ok n r1" and p1: "present r1 = present r"
      and h1: "hand r1 = (hand r + 1) mod n"
      by (auto simp: clock_ok_def r1_def)
    from hand_dist_step[OF ok(4) Suc.prems(2) ne] Suc.prems(4) h1
    have "hand_dist n (hand r1) p + n < k" by arith
    from Suc.IH[OF ok1 Suc.prems(2) _ this] p1 Suc.prems(3) v show ?thesis by simp
  qed
qed

lemma ClockVictim_some:
  assumes ok: "clock_ok n r" and p: "p < n" "present r ! p"
  shows "\<exists>v r'. ClockVictim r = (Some v, r') \<and> v < n \<and> present r ! v \<and> clock_ok n r' \<and>
           present r' = (present r)[v := False]"
proof -
  from ok p have n: "cap r = n" "0 < n" "hand r < n" by (auto simp: clock_ok_def)
  obtain res r' where v: "victim_loop (n * 2) r = (res, r')" by (cases "victim_loop (n * 2) r")
  from hand_dist_less[OF n(3) p(1)] have "hand_dist n (hand r) p + n < n * 2" by simp
  from victim_loop_live[OF ok p this] v obtain w where w: "res = Some w" by auto
  from victim_loop_safe[OF ok v] w v n show ?thesis by (simp add: ClockVictim_def)
qed

section \<open>Buffer pool and file as one store of pages\<close>

text \<open>
  \<open>lpage b d pid\<close> is the page a caller of \<^verbatim>\<open>FetchPage\<close> sees under \<open>pid\<close>: the data of the frame the
  page table maps \<open>pid\<close> to, and the page of the file when it is not mapped. Two pages are
  equivalent when they have the same number of slots and \<^verbatim>\<open>Get\<close> returns the same on every slot;
  \<^verbatim>\<open>Compact\<close> changes a page within that relation. A page is well formed when it is valid or all
  zeroes, as a page is that \<^verbatim>\<open>ResizeToPages\<close> appended and nobody initialised.
\<close>

definition lpage :: "'r BufferPoolManager \<Rightarrow> Disk \<Rightarrow> nat \<Rightarrow> Page" where
  "lpage b d pid = (case table b pid of Some f \<Rightarrow> frame_data (frames b ! f) | None \<Rightarrow> pages d ! pid)"

definition page_eqv :: "nat \<Rightarrow> Page \<Rightarrow> Page \<Rightarrow> bool" where
  "page_eqv ps p q \<longleftrightarrow> slot_count p = slot_count q \<and> (\<forall>s. Get ps p s = Get ps q s)"

definition page_ok :: "nat \<Rightarrow> Page \<Rightarrow> bool" where
  "page_ok ps pg \<longleftrightarrow> valid_page ps pg \<or> pg = zero_page"

text \<open>
  The states of a pool with the Clock replacer over a file, with the frame \<open>pin\<close> pinned once
  (\<open>None\<close>: no frame is pinned). The page size lies between the header size and 65536; the
  pool has a frame and the replacer the pool's capacity; the free list names frames of the
  pool, each once; the file has at most \<open>kInvalidPageId\<close> pages and every page write
  succeeds. A mapped page lies in the file, its frame is not free and carries its id and a
  well-formed page, and while the frame is clean that page is equivalent to the file's copy
  (not equal: a failed \<^verbatim>\<open>Insert\<close> or \<^verbatim>\<open>Update\<close> compacts the page and the table heap unpins it clean).
  Every frame that is not free is mapped by the id it carries, the replacer's candidates are
  the frames that are neither free nor pinned, and the file's pages are well formed.
\<close>

definition pool_inv :: "nat \<Rightarrow> nat option \<Rightarrow> ClockReplacer BufferPoolManager \<Rightarrow> Disk \<Rightarrow> bool" where
  "pool_inv ps pin b d \<longleftrightarrow>
     sizeof_PageHeader \<le> ps \<and> ps \<le> 65536 \<and>
     0 < length (frames b) \<and> clock_ok (length (frames b)) (replacer b) \<and>
     distinct (free_list b) \<and> (\<forall>f. f \<in> set (free_list b) \<longrightarrow> f < length (frames b)) \<and>
     length (pages d) \<le> kInvalidPageId \<and> (\<forall>pid. \<not> write_fails d pid) \<and>
     (\<forall>pid f. table b pid = Some f \<longrightarrow>
        f < length (frames b) \<and> f \<notin> set (free_list b) \<and> frame_page_id (frames b ! f) = pid \<and>
        pid < length (pages d) \<and> page_ok ps (frame_data (frames b ! f)) \<and>
        (\<not> dirty (frames b ! f) \<longrightarrow> page_eqv ps (frame_data (frames b ! f)) (pages d ! pid))) \<and>
     (\<forall>f. f < length (frames b) \<longrightarrow> f \<notin> set (free_list b) \<longrightarrow>
        table b (frame_page_id (frames b ! f)) = Some f) \<and>
     (\<forall>f. f < length (frames b) \<longrightarrow> pin_count (frames b ! f) = (if pin = Some f then 1 else 0)) \<and>
     (\<forall>f. f < length (frames b) \<longrightarrow>
        present (replacer b) ! f = (f \<notin> set (free_list b) \<and> pin \<noteq> Some f)) \<and>
     (\<forall>f. pin = Some f \<longrightarrow> f < length (frames b) \<and> f \<notin> set (free_list b)) \<and>
     (\<forall>pid. pid < length (pages d) \<longrightarrow> page_ok ps (pages d ! pid))"

lemma WritePage_inside:
  "pid < length (pages d) \<Longrightarrow> \<not> write_fails d pid \<Longrightarrow>
   WritePage d pid buf = (kOk, d\<lparr> pages := (pages d)[pid := buf] \<rparr>)"
  by (simp add: WritePage_def EnsureCapacityFor_def)

lemma page_eqv_refl [simp]: "page_eqv ps p p"
  by (simp add: page_eqv_def)

lemma page_eqv_sym: "page_eqv ps p q \<Longrightarrow> page_eqv ps q p"
  by (simp add: page_eqv_def)


lemma pool_invD:
  assumes "pool_inv ps pin b d"
  shows "sizeof_PageHeader \<le> ps" "ps \<le> 65536" "0 < length (frames b)"
    "clock_ok (length (frames b)) (replacer b)" "distinct (free_list b)"
    "\<And>f. f \<in> set (free_list b) \<Longrightarrow> f < length (frames b)"
    "length (pages d) \<le> kInvalidPageId" "\<And>pid. \<not> write_fails d pid"
    "\<And>f. f < length (frames b) \<Longrightarrow> f \<notin> set (free_list b) \<Longrightarrow>
        table b (frame_page_id (frames b ! f)) = Some f"
    "\<And>f. f < length (frames b) \<Longrightarrow> pin_count (frames b ! f) = (if pin = Some f then 1 else 0)"
    "\<And>f. f < length (frames b) \<Longrightarrow>
        present (replacer b) ! f = (f \<notin> set (free_list b) \<and> pin \<noteq> Some f)"
    "\<And>f. pin = Some f \<Longrightarrow> f < length (frames b) \<and> f \<notin> set (free_list b)"
    "\<And>pid. pid < length (pages d) \<Longrightarrow> page_ok ps (pages d ! pid)"
  using assms unfolding pool_inv_def by blast+

lemma pool_inv_table:
  assumes "pool_inv ps pin b d" and "table b pid = Some f"
  shows "f < length (frames b)" "f \<notin> set (free_list b)" "frame_page_id (frames b ! f) = pid"
    "pid < length (pages d)" "page_ok ps (frame_data (frames b ! f))"
    "\<not> dirty (frames b ! f) \<Longrightarrow> page_eqv ps (frame_data (frames b ! f)) (pages d ! pid)"
  using assms unfolding pool_inv_def by blast+

lemma pool_invI:
  assumes "sizeof_PageHeader \<le> ps" "ps \<le> 65536" "0 < length (frames b)"
    "clock_ok (length (frames b)) (replacer b)" "distinct (free_list b)"
    "\<And>f. f \<in> set (free_list b) \<Longrightarrow> f < length (frames b)"
    "length (pages d) \<le> kInvalidPageId" "\<And>pid. \<not> write_fails d pid"
    "\<And>pid f. table b pid = Some f \<Longrightarrow>
        f < length (frames b) \<and> f \<notin> set (free_list b) \<and> frame_page_id (frames b ! f) = pid \<and>
        pid < length (pages d) \<and> page_ok ps (frame_data (frames b ! f)) \<and>
        (\<not> dirty (frames b ! f) \<longrightarrow> page_eqv ps (frame_data (frames b ! f)) (pages d ! pid))"
    "\<And>f. f < length (frames b) \<Longrightarrow> f \<notin> set (free_list b) \<Longrightarrow>
        table b (frame_page_id (frames b ! f)) = Some f"
    "\<And>f. f < length (frames b) \<Longrightarrow> pin_count (frames b ! f) = (if pin = Some f then 1 else 0)"
    "\<And>f. f < length (frames b) \<Longrightarrow>
        present (replacer b) ! f = (f \<notin> set (free_list b) \<and> pin \<noteq> Some f)"
    "\<And>f. pin = Some f \<Longrightarrow> f < length (frames b) \<and> f \<notin> set (free_list b)"
    "\<And>pid. pid < length (pages d) \<Longrightarrow> page_ok ps (pages d ! pid)"
  shows "pool_inv ps pin b d"
  unfolding pool_inv_def using assms by blast


text \<open>
  With no frame pinned, \<^verbatim>\<open>AcquireFrameFor\<close> finds a frame: a free one, or the replacer's victim, whose
  dirty page it writes to the file. Every page reads as before, and the frame comes back
  unmapped and out of the replacer.
\<close>

lemma Acquire_ok:
  assumes inv: "pool_inv ps None b d" and miss: "table b pid = None"
  shows "\<exists>f old b1 d1. AcquireFrameFor ClockOps (b, d) pid = (Some f, old, b1, d1) \<and>
           f \<notin> set (free_list b1) \<and> f < length (frames b1) \<and>
           pool_inv ps None (b1\<lparr> free_list := f # free_list b1 \<rparr>) d1 \<and>
           table b1 pid = None \<and> length (pages d1) = length (pages d) \<and>
           resize_fails d1 = resize_fails d \<and> pages d1 ! pid = pages d ! pid \<and>
           (\<forall>q<length (pages d). page_eqv ps (lpage b1 d1 q) (lpage b d q))"
proof (cases "free_list b")
  case (Cons f rest)
  have a: "AcquireFrameFor ClockOps (b, d) pid = (Some f, kInvalidPageId, b\<lparr> free_list := rest \<rparr>, d)"
    by (simp add: AcquireFrameFor_def Cons)
  have e: "b\<lparr> free_list := rest \<rparr>\<lparr> free_list := f # free_list (b\<lparr> free_list := rest \<rparr>) \<rparr> = b"
    using Cons by simp
  from pool_invD(5)[OF inv] Cons have nf: "f \<notin> set rest" by simp
  from pool_invD(6)[OF inv, of f] Cons have fl: "f < length (frames b)" by simp
  have l: "lpage (b\<lparr> free_list := rest \<rparr>) d q = lpage b d q" for q
    by (simp add: lpage_def split: option.splits)
  show ?thesis
    by (intro exI[of _ f] exI[of _ kInvalidPageId] exI[of _ "b\<lparr> free_list := rest \<rparr>"] exI[of _ d])
       (use a e nf fl l inv miss in simp)
next
  case Nil
  let ?n = "length (frames b)"
  from pool_invD(3)[OF inv] have n0: "0 < ?n" .
  from pool_invD(11)[OF inv] Nil have allp: "\<And>f. f < ?n \<Longrightarrow> present (replacer b) ! f" by simp
  from ClockVictim_some[OF pool_invD(4)[OF inv] n0 allp[OF n0]]
  obtain v r1 where cv: "ClockVictim (replacer b) = (Some v, r1)" and v: "v < ?n"
    and ok1: "clock_ok ?n r1" and p1: "present r1 = (present (replacer b))[v := False]"
    by blast
  define old where "old = frame_page_id (frames b ! v)"
  from pool_invD(9)[OF inv v] Nil have tv: "table b old = Some v" by (simp add: old_def)
  note tf = pool_inv_table[OF inv tv]
  from tf(4) pool_invD(7)[OF inv] have oi: "old \<noteq> kInvalidPageId" by simp
  from tv miss have op: "old \<noteq> pid" by auto
  define fr1 where "fr1 = (if dirty (frames b ! v)
      then (frames b)[v := (frames b ! v)\<lparr> dirty := False \<rparr>] else frames b)"
  define d1 where "d1 = (if dirty (frames b ! v)
      then d\<lparr> pages := (pages d)[old := frame_data (frames b ! v)] \<rparr> else d)"
  obtain fo old' b1 d1' where a: "AcquireFrameFor ClockOps (b, d) pid = (fo, old', b1, d1')"
    by (cases "AcquireFrameFor ClockOps (b, d) pid")
  from a cv oi tf(4) pool_invD(8)[OF inv]
  have r: "fo = Some v" "old' = old" "d1' = d1" "frames b1 = fr1" "free_list b1 = []"
    "table b1 = (table b)(old := None)" "replacer b1 = r1"
    by (auto simp: AcquireFrameFor_def FlushFrame_def WritePage_inside Let_def Nil ClockOps_def
        old_def[symmetric] fr1_def d1_def split: if_splits)
  have len1: "length fr1 = ?n" by (simp add: fr1_def)
  have fr_other: "fr1 ! f = frames b ! f" if "f \<noteq> v" for f
    using that by (simp add: fr1_def)
  have fr_v: "frame_data (fr1 ! v) = frame_data (frames b ! v)"
    "frame_page_id (fr1 ! v) = old" "pin_count (fr1 ! v) = pin_count (frames b ! v)"
    using v by (simp_all add: fr1_def old_def)
  have pl: "length (pages d1) = length (pages d)" by (simp add: d1_def)
  have pg_other: "pages d1 ! q = pages d ! q" if "q \<noteq> old" for q
    using that by (simp add: d1_def)
  have pg_old: "page_eqv ps (pages d1 ! old) (frame_data (frames b ! v))"
    using tf(4) tf(6) by (auto simp: d1_def intro: page_eqv_sym)
  have pg_old_ok: "page_ok ps (pages d1 ! old)"
    using tf(4) tf(5) pool_invD(13)[OF inv tf(4)] by (auto simp: d1_def)
  have wf1: "write_fails d1 = write_fails d" "resize_fails d1 = resize_fails d"
    by (simp_all add: d1_def)
  have tab_other: "f \<noteq> v" if "table b q = Some f" "q \<noteq> old" for q f
    using pool_inv_table(3)[OF inv that(1)] that(2) by (auto simp: old_def)
  have lp: "length (present (replacer b)) = ?n"
    using pool_invD(4)[OF inv] by (simp add: clock_ok_def)
  let ?b1 = "b1\<lparr> free_list := v # free_list b1 \<rparr>"
  have inv1: "pool_inv ps None ?b1 d1"
  proof (rule pool_invI)
    show "sizeof_PageHeader \<le> ps" "ps \<le> 65536" using pool_invD(1,2)[OF inv] by simp_all
    show "0 < length (frames ?b1)" using n0 by (simp add: r len1)
    show "clock_ok (length (frames ?b1)) (replacer ?b1)" using ok1 by (simp add: r len1)
    show "distinct (free_list ?b1)" by (simp add: r)
    show "\<And>f. f \<in> set (free_list ?b1) \<Longrightarrow> f < length (frames ?b1)" using v by (simp add: r len1)
    show "length (pages d1) \<le> kInvalidPageId" using pool_invD(7)[OF inv] by (simp add: pl)
    show "\<And>pid. \<not> write_fails d1 pid" using pool_invD(8)[OF inv] by (simp add: wf1)
    show "\<And>pid. pid < length (pages d1) \<Longrightarrow> page_ok ps (pages d1 ! pid)"
      using pool_invD(13)[OF inv] pg_old_ok pg_other by (metis pl)
    show "\<And>f. f < length (frames ?b1) \<Longrightarrow>
        pin_count (frames ?b1 ! f) = (if None = Some f then 1 else 0)"
      using pool_invD(10)[OF inv] fr_other fr_v(3) by (simp add: r len1) metis
    show "\<And>f. None = Some f \<Longrightarrow> f < length (frames ?b1) \<and> f \<notin> set (free_list ?b1)" by simp
    show "\<And>f. f < length (frames ?b1) \<Longrightarrow>
        present (replacer ?b1) ! f = (f \<notin> set (free_list ?b1) \<and> None \<noteq> Some f)"
      using allp lp by (auto simp: r len1 p1 nth_list_update)
    show "\<And>f. f < length (frames ?b1) \<Longrightarrow> f \<notin> set (free_list ?b1) \<Longrightarrow>
        table ?b1 (frame_page_id (frames ?b1 ! f)) = Some f"
    proof -
      fix f assume f: "f < length (frames ?b1)" "f \<notin> set (free_list ?b1)"
      then have fv: "f \<noteq> v" "f < ?n" by (simp_all add: r len1)
      from pool_invD(9)[OF inv fv(2)] Nil have t: "table b (frame_page_id (frames b ! f)) = Some f"
        by simp
      with tv fv have "frame_page_id (frames b ! f) \<noteq> old" by auto
      with t fv show "table ?b1 (frame_page_id (frames ?b1 ! f)) = Some f"
        by (simp add: r fr_other)
    qed
    show "\<And>pid f. table ?b1 pid = Some f \<Longrightarrow>
        f < length (frames ?b1) \<and> f \<notin> set (free_list ?b1) \<and> frame_page_id (frames ?b1 ! f) = pid \<and>
        pid < length (pages d1) \<and> page_ok ps (frame_data (frames ?b1 ! f)) \<and>
        (\<not> dirty (frames ?b1 ! f) \<longrightarrow> page_eqv ps (frame_data (frames ?b1 ! f)) (pages d1 ! pid))"
    proof -
      fix q f assume "table ?b1 q = Some f"
      then have q: "q \<noteq> old" "table b q = Some f" by (auto simp: r split: if_splits)
      from tab_other[OF q(2) q(1)] have fv: "f \<noteq> v" .
      from pool_inv_table[OF inv q(2)] fv q(1)
      show "f < length (frames ?b1) \<and> f \<notin> set (free_list ?b1) \<and> frame_page_id (frames ?b1 ! f) = q \<and>
        q < length (pages d1) \<and> page_ok ps (frame_data (frames ?b1 ! f)) \<and>
        (\<not> dirty (frames ?b1 ! f) \<longrightarrow> page_eqv ps (frame_data (frames ?b1 ! f)) (pages d1 ! q))"
        by (simp add: r len1 fr_other pl pg_other)
    qed
  qed
  have eqv: "page_eqv ps (lpage b1 d1 q) (lpage b d q)" if "q < length (pages d)" for q
  proof (cases "q = old")
    case True
    then show ?thesis using tv pg_old by (simp add: lpage_def r)
  next
    case False
    show ?thesis
    proof (cases "table b q")
      case None
      with False show ?thesis by (simp add: lpage_def r pg_other)
    next
      case (Some f)
      from tab_other[OF Some False] Some False show ?thesis by (simp add: lpage_def r fr_other)
    qed
  qed
  show ?thesis
    by (intro exI[of _ v] exI[of _ old] exI[of _ b1] exI[of _ d1])
       (use a r inv1 v len1 miss pl wf1 pg_other[of pid] op eqv in simp)
qed

text \<open>
  \<^verbatim>\<open>FetchPage\<close> of a page of the file succeeds, pins the page's frame and changes no page; of a page
  beyond the end of the file it fails. \<^verbatim>\<open>UnpinPage\<close> of the pinned page leaves no frame pinned.
\<close>

lemma FetchPage_beyond:
  assumes inv: "pool_inv ps None b d" and pid: "\<not> pid < length (pages d)"
  shows "fst (snd (FetchPage ClockOps (b, d) pid)) = None"
proof -
  have miss: "table b pid = None"
  proof (cases "table b pid")
    case (Some f)
    from pool_inv_table(4)[OF inv Some] pid show ?thesis by simp
  qed simp
  from Acquire_ok[OF inv miss] obtain f old b1 d1 where
    a: "AcquireFrameFor ClockOps (b, d) pid = (Some f, old, b1, d1)"
    and l: "length (pages d1) = length (pages d)" by blast
  from a l pid miss show ?thesis
    by (simp add: FetchPage_def LookupFrame_def ReadPage_def)
qed



section \<open>Slotted page operations on well-formed pages\<close>

lemma zero_page_fields [simp]:
  "slot_count zero_page = 0" "free_size zero_page = 0" "free_off zero_page = 0"
  by (simp_all add: zero_page_def)

lemma Get_zero_page [simp]: "Get ps zero_page s = Inl kNotFound"
  by (simp add: Get_def)

lemma Get_InitNew [simp]: "Get ps (InitNew pid ps) s = Inl kNotFound"
  by (simp add: Get_def InitNew_def)

lemma slot_count_InitNew [simp]: "slot_count (InitNew pid ps) = 0"
  by (simp add: InitNew_def)


lemma page_ok_zero [simp]: "page_ok ps zero_page"
  by (simp add: page_ok_def)

lemma Compact_zero_page:
  "Compact ps zero_page = zero_page\<lparr> free_off := 32, free_size := u16 (int ps - 32), compact_calls := 1 \<rparr>"
  by (simp add: Compact_def lives_def zero_page_def u16_def)


lemma Get_Compact_zero [simp]: "Get ps (Compact ps zero_page) s = Inl kNotFound"
  by (simp add: Compact_zero_page Get_def)













section \<open>The table as a map from RIDs to tuples\<close>

text \<open>
  \<open>npages\<close> is the number of pages of the table's file, \<open>hpage h pid\<close> the page of the table
  under \<open>pid\<close>, and \<open>tget h rid\<close> what \<^verbatim>\<open>Get\<close> reads at \<open>rid\<close> in it. A table is quiet when its pool
  and file are in a state of \<open>pool_inv\<close> with no frame pinned: the state between two calls of
  the table heap. \<open>touched h pid pg h2\<close> says that \<open>h2\<close> is \<open>h\<close> with \<open>pg\<close> written to page \<open>pid\<close>,
  every other page reading as before.
\<close>

definition npages :: "'r TableHeap \<Rightarrow> nat" where
  "npages h = length (pages (th_disk h))"

definition hpage :: "'r TableHeap \<Rightarrow> nat \<Rightarrow> Page" where
  "hpage h pid = lpage (th_bpm h) (th_disk h) pid"

definition tget :: "'r TableHeap \<Rightarrow> RID \<Rightarrow> StatusCode + byte list" where
  "tget h rid = (if fst rid < npages h then Get (th_page_size h) (hpage h (fst rid)) (snd rid)
                 else Inl kNotFound)"

definition quiet :: "ClockReplacer TableHeap \<Rightarrow> bool" where
  "quiet h \<longleftrightarrow> pool_inv (th_page_size h) None (th_bpm h) (th_disk h)"


lemma fsm_upd_simps [simp]:
  "npages (h\<lparr> th_fsm := x \<rparr>) = npages h" "hpage (h\<lparr> th_fsm := x \<rparr>) = hpage h"
  "quiet (h\<lparr> th_fsm := x \<rparr>) = quiet h" "tget (h\<lparr> th_fsm := x \<rparr>) = tget h"
  by (simp_all add: npages_def hpage_def quiet_def tget_def fun_eq_iff)



















section \<open>The rows of a table in scan order\<close>

text \<open>
  The rows of the slots \<open>ss\<close> of page \<open>p\<close> that hold a tuple, of the pages from \<open>p\<close> on, of page
  \<open>p\<close> from slot \<open>s\<close> on followed by the later pages, and of the whole table: the readable
  slots in the order of page id and slot.
\<close>

definition nslots :: "'r TableHeap \<Rightarrow> nat \<Rightarrow> nat" where
  "nslots h p = slot_count (hpage h p)"

definition page_rows :: "'r TableHeap \<Rightarrow> nat \<Rightarrow> nat list \<Rightarrow> (RID \<times> byte list) list" where
  "page_rows h p ss =
     concat (map (\<lambda>s. case tget h (p, s) of Inr b \<Rightarrow> [((p, s), b)] | Inl e \<Rightarrow> []) ss)"

definition rows_after :: "'r TableHeap \<Rightarrow> nat \<Rightarrow> (RID \<times> byte list) list" where
  "rows_after h p = concat (map (\<lambda>q. page_rows h q [0..<nslots h q]) [p..<npages h])"

definition rows_from :: "'r TableHeap \<Rightarrow> nat \<Rightarrow> nat \<Rightarrow> (RID \<times> byte list) list" where
  "rows_from h p s =
     (if p < npages h then page_rows h p [s..<nslots h p] @ rows_after h (Suc p) else [])"


lemma page_rows_Nil [simp]: "page_rows h p [] = []"
  by (simp add: page_rows_def)

lemma page_rows_Cons:
  "page_rows h p (s # ss) =
     (case tget h (p, s) of Inr b \<Rightarrow> [((p, s), b)] | Inl e \<Rightarrow> []) @ page_rows h p ss"
  by (simp add: page_rows_def)






lemma rows_from_live:
  assumes "p < npages h" "s < nslots h p" "tget h (p, s) = Inr b"
  shows "rows_from h p s = ((p, s), b) # rows_from h p (Suc s)"
  using assms by (simp add: rows_from_def upt_conv_Cons page_rows_Cons)

























section \<open>Moving a tuple to another page\<close>





















end
